theory Spec2Isabelle
  imports Complex_Main
begin

section \<open>Python and library primitives used by the two modules\<close>

text \<open>
  The exceptions that the modelled code paths can raise: indexing a tensor out of range
  (\<open>IndexError\<close>), \<open>numpy.random.randint\<close> with an empty range (\<open>ValueError\<close>) and
  \<open>torch.stack\<close> or broadcasting on unsuitable tensors (\<open>RuntimeError\<close>).
\<close>

datatype py_error = IndexError | ValueError | RuntimeError

text \<open>
  A call either returns a value, raises, or never returns. Both a return and a raise leave
  the process-wide random generator in some state \<open>'g\<close>.
\<close>

datatype ('r, 'g) outcome = Return 'r 'g | Raise py_error 'g | Diverge

text \<open>
  A tensor of shape \<open>(L, F)\<close> is the list of its \<open>L\<close> rows, a batch of shape
  \<open>(N, L, F)\<close> the list of its \<open>N\<close> entries. The bound of a slice \<open>t[lo:hi]\<close> is
  normalised as Python and torch do: a negative bound counts from the end, and every
  bound is clamped into \<open>[0, len(t)]\<close>.
\<close>

definition slice_index :: "nat \<Rightarrow> int \<Rightarrow> nat" where
  "slice_index n i = (if i < 0 then nat (int n + i) else min n (nat i))"

definition py_slice :: "'a list \<Rightarrow> int \<Rightarrow> int \<Rightarrow> 'a list" where
  "py_slice t lo hi =
     (let a = slice_index (length t) lo; b = slice_index (length t) hi
      in take (b - a) (drop a t))"

definition py_slice_to :: "'a list \<Rightarrow> int \<Rightarrow> 'a list" where
  "py_slice_to t hi = take (slice_index (length t) hi) t"

text \<open>\<open>t[index]\<close> for the non-negative index that \<open>enumerate\<close> supplies.\<close>

definition tensor_index :: "'a list \<Rightarrow> nat \<Rightarrow> py_error + 'a" where
  "tensor_index t i = (if i < length t then Inr (t ! i) else Inl IndexError)"

text \<open>\<open>t.repeat((k, 1))\<close>: the rows of \<open>t\<close>, \<open>k\<close> times over.\<close>

definition tensor_repeat :: "nat \<Rightarrow> 'a list \<Rightarrow> 'a list" where
  "tensor_repeat k t = concat (replicate k t)"

text \<open>
  \<open>torch.stack(ts, dim=0)\<close> refuses an empty list and tensors of differing shapes; the
  stacked tensor is the list of its entries. A tensor without rows is the empty list and
  carries no number of columns; \<open>forward\<close> stacks windows of 256 rows only.
\<close>

definition torch_stack :: "'a list list list \<Rightarrow> py_error + 'a list list list" where
  "torch_stack ts =
     (if ts = [] then Inl RuntimeError
      else if list_all (\<lambda>t. map length t = map length (hd ts)) ts then Inr ts
      else Inl RuntimeError)"

text \<open>
  \<open>numpy.random.randint(low, high)\<close> reads and advances numpy's global generator. The
  generator is a parameter of the model: \<open>draw g low high\<close> is the number drawn in state
  \<open>g\<close> and the state after it. numpy raises \<open>ValueError\<close> when \<open>low >= high\<close> and
  otherwise promises a number in \<open>[low, high)\<close>, which is \<open>generator_ok\<close>.
\<close>

type_synonym 'g generator = "'g \<Rightarrow> int \<Rightarrow> int \<Rightarrow> int \<times> 'g"

definition randint :: "'g generator \<Rightarrow> int \<Rightarrow> int \<Rightarrow> 'g \<Rightarrow> (py_error + int) \<times> 'g" where
  "randint draw low high g =
     (if low \<ge> high then (Inl ValueError, g)
      else (Inr (fst (draw g low high)), snd (draw g low high)))"

definition generator_ok :: "'g generator \<Rightarrow> bool" where
  "generator_ok draw \<longleftrightarrow>
     (\<forall>g low high. low < high \<longrightarrow> low \<le> fst (draw g low high) \<and> fst (draw g low high) < high)"

text \<open>A concrete generator to run the model on: the state counts the draws made.\<close>

definition counter_draw :: "nat generator" where
  "counter_draw g low high = (low + int g mod (high - low), Suc g)"

text \<open>
  Two generators, possibly of different kinds of state, simulate one another under \<open>R\<close>
  when related states draw the same numbers and lead to related states.
\<close>

definition draws_alike :: "('g \<Rightarrow> 'h \<Rightarrow> bool) \<Rightarrow> 'g generator \<Rightarrow> 'h generator \<Rightarrow> bool" where
  "draws_alike R draw draw' \<longleftrightarrow>
     (\<forall>a b low high. R a b \<longrightarrow>
        fst (draw a low high) = fst (draw' b low high)
        \<and> R (snd (draw a low high)) (snd (draw' b low high)))"

section \<open>StyleEmbedding.forward\<close>

definition window_size :: int where
  "window_size = 256"

text \<open>
  The \<open>while current_spec_length < window_size\<close> loop. Nothing bounds the number of its
  iterations, so not returning is the value \<open>None\<close>.
\<close>

partial_function (option) doubling_loop :: "'a list \<Rightarrow> 'a list option" where
  "doubling_loop spec =
     (if int (length spec) < window_size then doubling_loop (tensor_repeat 2 spec)
      else Some spec)"

text \<open>
  One iteration of the \<open>for index, spec_length in enumerate(...)\<close> loop: slice the entry
  to its length, repeat it once, run the doubling loop, then append a random window, the
  sequence as it is, or nothing.
\<close>

definition forward_step ::
  "'g generator \<Rightarrow> 'a list list list \<Rightarrow> nat \<Rightarrow> int \<Rightarrow> 'a list list list \<Rightarrow> 'g
     \<Rightarrow> ('a list list list, 'g) outcome" where
  "forward_step draw batch_of_spectrograms index spec_length list_of_specs g =
     (case tensor_index batch_of_spectrograms index of
        Inl e \<Rightarrow> Raise e g
      | Inr padded \<Rightarrow>
          (case doubling_loop (tensor_repeat 2 (py_slice_to padded spec_length)) of
             None \<Rightarrow> Diverge
           | Some spec \<Rightarrow>
               (let current_spec_length = int (length spec) in
                if current_spec_length > window_size then
                  (let frames_to_remove = current_spec_length - window_size in
                   case randint draw 0 frames_to_remove g of
                     (Inl e, g') \<Rightarrow> Raise e g'
                   | (Inr remove_front, g') \<Rightarrow>
                       Return (list_of_specs @
                         [py_slice spec remove_front (remove_front + window_size)]) g')
                else if current_spec_length = window_size then
                  Return (list_of_specs @ [spec]) g
                else Return list_of_specs g)))"

fun forward_loop ::
  "'g generator \<Rightarrow> 'a list list list \<Rightarrow> nat \<Rightarrow> int list \<Rightarrow> 'a list list list \<Rightarrow> 'g
     \<Rightarrow> ('a list list list, 'g) outcome" where
  "forward_loop draw batch index [] list_of_specs g = Return list_of_specs g"
| "forward_loop draw batch index (spec_length # rest) list_of_specs g =
     (case forward_step draw batch index spec_length list_of_specs g of
        Return specs g' \<Rightarrow> forward_loop draw batch (Suc index) rest specs g'
      | Raise e g' \<Rightarrow> Raise e g'
      | Diverge \<Rightarrow> Diverge)"

text \<open>
  The windowing stage of \<open>forward\<close>: the loop over the length vector, then
  \<open>torch.stack\<close>. Its result is \<open>batch_of_spectrograms_unified_length\<close>.
\<close>

definition unified_length ::
  "'g generator \<Rightarrow> 'a list list list \<Rightarrow> int list \<Rightarrow> 'g \<Rightarrow> ('a list list list, 'g) outcome" where
  "unified_length draw batch_of_spectrograms batch_of_spectrogram_lengths g =
     (case forward_loop draw batch_of_spectrograms 0 batch_of_spectrogram_lengths [] g of
        Return specs g' \<Rightarrow>
          (case torch_stack specs of Inl e \<Rightarrow> Raise e g' | Inr t \<Rightarrow> Return t g')
      | Raise e g' \<Rightarrow> Raise e g'
      | Diverge \<Rightarrow> Diverge)"

text \<open>
  \<open>forward\<close> hands the stacked windows to the style encoder \<open>self.gst\<close>, which lives
  outside these sources and is a parameter here.
\<close>

definition forward ::
  "('a list list list \<Rightarrow> bool \<Rightarrow> bool \<Rightarrow> 'e) \<Rightarrow> 'g generator \<Rightarrow> 'a list list list \<Rightarrow> int list
     \<Rightarrow> bool \<Rightarrow> bool \<Rightarrow> 'g \<Rightarrow> ('e, 'g) outcome" where
  "forward gst draw batch_of_spectrograms batch_of_spectrogram_lengths
       return_all_outs return_only_refs g =
     (case unified_length draw batch_of_spectrograms batch_of_spectrogram_lengths g of
        Return t g' \<Rightarrow> Return (gst t return_all_outs return_only_refs) g'
      | Raise e g' \<Rightarrow> Raise e g'
      | Diverge \<Rightarrow> Diverge)"

text \<open>
  The inputs the docstring describes: a batch of shape \<open>(N, L, F)\<close> and one length per
  entry, each between 1 and \<open>L\<close>.
\<close>

definition batch_shape :: "'a list list list \<Rightarrow> nat \<Rightarrow> nat \<Rightarrow> nat \<Rightarrow> bool" where
  "batch_shape batch N L F \<longleftrightarrow>
     length batch = N \<and> (\<forall>s \<in> set batch. length s = L \<and> (\<forall>row \<in> set s. length row = F))"

definition valid_lengths :: "int list \<Rightarrow> nat \<Rightarrow> nat \<Rightarrow> bool" where
  "valid_lengths lengths N L \<longleftrightarrow>
     length lengths = N \<and> (\<forall>n \<in> set lengths. 1 \<le> n \<and> n \<le> int L)"

section \<open>LogSTFTMagnitudeLoss.forward\<close>

text \<open>
  Tensor entries are real numbers: rounding and overflow of the machine floats are not
  modelled. What is kept is where a float stops being a finite number: \<open>NonFin\<close> stands
  for an infinity or a NaN, which every operation below passes on. Both arguments carry
  the same shape in the docstring, so a tensor is the flat list of its entries; for two
  one-dimensional tensors of different sizes the broadcasting rule is the library's.
\<close>

datatype fval = Fin real | NonFin

definition torch_log :: "real list \<Rightarrow> fval list" where
  "torch_log t = map (\<lambda>v. if 0 < v then Fin (ln v) else NonFin) t"

fun fsub :: "fval \<Rightarrow> fval \<Rightarrow> fval" where
  "fsub (Fin a) (Fin b) = Fin (a - b)"
| "fsub _ _ = NonFin"

fun fabs :: "fval \<Rightarrow> fval" where
  "fabs (Fin a) = Fin \<bar>a\<bar>"
| "fabs NonFin = NonFin"

fun fadd :: "fval \<Rightarrow> fval \<Rightarrow> fval" where
  "fadd (Fin a) (Fin b) = Fin (a + b)"
| "fadd _ _ = NonFin"

definition tensor_sum :: "fval list \<Rightarrow> fval" where
  "tensor_sum t = foldr fadd t (Fin 0)"

text \<open>The sum divided by the number of entries; \<open>0 / 0\<close> is a NaN.\<close>

definition tensor_mean :: "fval list \<Rightarrow> fval" where
  "tensor_mean t =
     (case tensor_sum t of
        Fin s \<Rightarrow> if t = [] then NonFin else Fin (s / real (length t))
      | NonFin \<Rightarrow> NonFin)"

definition broadcast_tensors :: "'a list \<Rightarrow> 'a list \<Rightarrow> py_error + ('a list \<times> 'a list)" where
  "broadcast_tensors a b =
     (if length a = length b then Inr (a, b)
      else if length a = 1 then Inr (replicate (length b) (hd a), b)
      else if length b = 1 then Inr (a, replicate (length a) (hd b))
      else Inl RuntimeError)"

text \<open>\<open>F.l1_loss(input, target)\<close> with its default reduction, the mean.\<close>

definition l1_loss :: "fval list \<Rightarrow> fval list \<Rightarrow> py_error + fval" where
  "l1_loss input target =
     (case broadcast_tensors input target of
        Inl e \<Rightarrow> Inl e
      | Inr (i, t) \<Rightarrow> Inr (tensor_mean (map2 (\<lambda>a b. fabs (fsub a b)) i t)))"

definition loss_forward :: "real list \<Rightarrow> real list \<Rightarrow> py_error + fval" where
  "loss_forward x_mag y_mag = l1_loss (torch_log y_mag) (torch_log x_mag)"

text \<open>
  The loss in the words of the specification: the mean over all elements of the absolute
  difference of the logarithms. A mean over no element is not a number.
\<close>

definition log_l1_mean :: "real list \<Rightarrow> real list \<Rightarrow> fval" where
  "log_l1_mean x y =
     (if x = [] then NonFin
      else Fin ((\<Sum>i < length x. \<bar>ln (y ! i) - ln (x ! i)\<bar>) / real (length x)))"

text \<open>
  The same module with the float operations of the library as parameters: the logarithm
  of an entry, the difference of two floats, the absolute value of a float and the mean
  of the entries of a tensor. What torch computes in float32 is one instance of them; the
  reading over the real numbers above, with \<open>log_entry\<close>, is another.
\<close>

definition l1_loss_with ::
  "('f \<Rightarrow> 'f \<Rightarrow> 'f) \<Rightarrow> ('f \<Rightarrow> 'f) \<Rightarrow> ('f list \<Rightarrow> 'f) \<Rightarrow> 'f list \<Rightarrow> 'f list \<Rightarrow> py_error + 'f" where
  "l1_loss_with op_sub op_abs op_mean input target =
     (case broadcast_tensors input target of
        Inl e \<Rightarrow> Inl e
      | Inr (i, t) \<Rightarrow> Inr (op_mean (map2 (\<lambda>a b. op_abs (op_sub a b)) i t)))"

definition loss_forward_with ::
  "('a \<Rightarrow> 'f) \<Rightarrow> ('f \<Rightarrow> 'f \<Rightarrow> 'f) \<Rightarrow> ('f \<Rightarrow> 'f) \<Rightarrow> ('f list \<Rightarrow> 'f) \<Rightarrow> 'a list \<Rightarrow> 'a list
     \<Rightarrow> py_error + 'f" where
  "loss_forward_with op_log op_sub op_abs op_mean x_mag y_mag =
     l1_loss_with op_sub op_abs op_mean (map op_log y_mag) (map op_log x_mag)"

definition log_entry :: "real \<Rightarrow> fval" where
  "log_entry v = (if 0 < v then Fin (ln v) else NonFin)"

text \<open>
  The loss in the words of the specification, over the same operations: the mean over
  all elements of the absolute difference between the logarithm of \<open>y_mag\<close> and the
  logarithm of \<open>x_mag\<close>.
\<close>

definition log_l1_mean_with ::
  "('a \<Rightarrow> 'f) \<Rightarrow> ('f \<Rightarrow> 'f \<Rightarrow> 'f) \<Rightarrow> ('f \<Rightarrow> 'f) \<Rightarrow> ('f list \<Rightarrow> 'f) \<Rightarrow> 'a list \<Rightarrow> 'a list \<Rightarrow> 'f" where
  "log_l1_mean_with op_log op_sub op_abs op_mean x y =
     op_mean (map (\<lambda>i. op_abs (op_sub (op_log (y ! i)) (op_log (x ! i)))) [0..<length x])"

section \<open>The doubling loop\<close>

lemma length_tensor_repeat: "length (tensor_repeat k t) = k * length t"
  by (induction k) (simp_all add: tensor_repeat_def)

lemma tensor_repeat_twice: "tensor_repeat 2 (tensor_repeat k t) = tensor_repeat (2 * k) t"
proof -
  have "replicate (2 * k) t = replicate k t @ replicate k t"
    by (simp add: mult_2 replicate_add)
  then show ?thesis
    by (simp add: tensor_repeat_def numeral_2_eq_2)
qed

lemma doubling_loop_stop:
  "256 \<le> length spec \<Longrightarrow> doubling_loop spec = Some spec"
  by (subst doubling_loop.simps) (simp add: window_size_def)

lemma doubling_loop_step:
  "length spec < 256 \<Longrightarrow> doubling_loop spec = doubling_loop (tensor_repeat 2 spec)"
  by (subst doubling_loop.simps) (simp add: window_size_def)

lemma doubling_loop_empty: "doubling_loop ([] :: 'a list) = None"
proof -
  have "spec \<noteq> []" if "doubling_loop spec = Some r" for spec r :: "'a list"
  proof (rule doubling_loop.raw_induct [where P = "\<lambda>spec r. spec \<noteq> []", OF _ that])
    fix f and spec r :: "'a list"
    assume IH: "\<And>spec r. f spec = Some r \<Longrightarrow> spec \<noteq> []"
      and eq: "(if int (length spec) < window_size then f (tensor_repeat 2 spec) else Some spec) = Some r"
    show "spec \<noteq> []"
    proof (cases "int (length spec) < window_size")
      case True
      with eq have "f (tensor_repeat 2 spec) = Some r" by simp
      then have "tensor_repeat 2 spec \<noteq> []" by (rule IH)
      then show ?thesis by (auto simp: tensor_repeat_def)
    next
      case False
      then show ?thesis by (auto simp: window_size_def)
    qed
  qed
  then show ?thesis by (cases "doubling_loop ([] :: 'a list)") auto
qed

lemma doubling_loop_repeat:
  assumes "t \<noteq> []" and "1 \<le> k"
  shows "\<exists>m. doubling_loop (tensor_repeat k t) = Some (tensor_repeat (k * 2 ^ m) t)
           \<and> 256 \<le> k * 2 ^ m * length t
           \<and> (m = 0 \<or> k * 2 ^ (m - 1) * length t < 256)"
  using assms
proof (induction "256 - k * length t" arbitrary: k rule: less_induct)
  case less
  show ?case
  proof (cases "k * length t < 256")
    case False
    then have "doubling_loop (tensor_repeat k t) = Some (tensor_repeat k t)"
      by (intro doubling_loop_stop) (simp add: length_tensor_repeat)
    with False show ?thesis by (intro exI [of _ 0]) simp
  next
    case True
    from less.prems have pos: "0 < k * length t" by simp
    with True have "256 - 2 * k * length t < 256 - k * length t" by arith
    from less.hyps [OF this] less.prems obtain m where
      m: "doubling_loop (tensor_repeat (2 * k) t) = Some (tensor_repeat (2 * k * 2 ^ m) t)"
         "256 \<le> 2 * k * 2 ^ m * length t"
         "m = 0 \<or> 2 * k * 2 ^ (m - 1) * length t < 256"
      by (auto simp: mult.assoc)
    from True have "doubling_loop (tensor_repeat k t) = doubling_loop (tensor_repeat 2 (tensor_repeat k t))"
      by (intro doubling_loop_step) (simp add: length_tensor_repeat)
    moreover have "k * 2 ^ Suc m = 2 * k * 2 ^ m" by simp
    ultimately have 1: "doubling_loop (tensor_repeat k t) = Some (tensor_repeat (k * 2 ^ Suc m) t)"
      using m(1) by (simp only: tensor_repeat_twice)
    have 2: "256 \<le> k * 2 ^ Suc m * length t"
      using m(2) by (simp add: ac_simps)
    have 3: "k * 2 ^ (Suc m - 1) * length t < 256"
    proof (cases m)
      case 0
      with True show ?thesis by simp
    next
      case (Suc m')
      with m(3) show ?thesis by (simp add: ac_simps)
    qed
    from 1 2 3 show ?thesis by (intro exI [of _ "Suc m"]) simp
  qed
qed

lemma nth_tensor_repeat:
  "i < k * length t \<Longrightarrow> tensor_repeat k t ! i = t ! (i mod length t)"
proof (induction k arbitrary: i)
  case 0
  then show ?case by simp
next
  case (Suc k)
  show ?case
  proof (cases "i < length t")
    case True
    then show ?thesis by (simp add: tensor_repeat_def nth_append)
  next
    case False
    with Suc.prems have "i - length t < k * length t" by simp
    then have "tensor_repeat k t ! (i - length t) = t ! ((i - length t) mod length t)"
      by (rule Suc.IH)
    with False show ?thesis
      by (simp add: tensor_repeat_def nth_append le_mod_geq)
  qed
qed

lemma counter_draw_ok: "generator_ok counter_draw"
proof -
  have "low \<le> low + int g mod (high - low) \<and> low + int g mod (high - low) < high"
    if "low < high" for g :: nat and low high :: int
  proof -
    from that have "0 < high - low" by simp
    then have "0 \<le> int g mod (high - low)" "int g mod (high - low) < high - low"
      by (simp_all only: pos_mod_sign pos_mod_bound)
    then show ?thesis by simp
  qed
  then show ?thesis
    by (simp add: generator_ok_def counter_draw_def)
qed

lemma doubling_loop_exact:
  "k * 2 ^ m * length t = 256 \<Longrightarrow>
     doubling_loop (tensor_repeat k t) = Some (tensor_repeat (k * 2 ^ m) t)"
proof (induction m arbitrary: k)
  case 0
  then show ?case
    by (simp add: doubling_loop_stop length_tensor_repeat)
next
  case (Suc m)
  from Suc.prems have eq: "2 * k * 2 ^ m * length t = 256"
    by (simp add: ac_simps)
  have "1 \<le> (2::nat) ^ m" by simp
  then have "k * length t * 1 \<le> k * length t * 2 ^ m"
    by (intro mult_le_mono2)
  with eq have "k * length t < 256"
    by (simp add: ac_simps)
  then have "doubling_loop (tensor_repeat k t) = doubling_loop (tensor_repeat 2 (tensor_repeat k t))"
    by (intro doubling_loop_step) (simp add: length_tensor_repeat)
  moreover have "k * 2 ^ Suc m = 2 * k * 2 ^ m" by simp
  ultimately show ?case
    using Suc.IH [OF eq] by (simp only: tensor_repeat_twice)
qed

lemma doublings_bounded:
  assumes "t \<noteq> []" and "m = 0 \<or> 2 * 2 ^ (m - 1) * length t < 256"
  shows "m \<le> 7"
proof (rule ccontr)
  assume "\<not> m \<le> 7"
  then have m: "8 \<le> m" by simp
  then have "(2::nat) ^ 7 \<le> 2 ^ (m - 1)"
    by (intro power_increasing) simp_all
  moreover from assms(1) have "1 \<le> length t"
    by (cases t) simp_all
  ultimately have "2 ^ 7 * 1 \<le> 2 ^ (m - 1) * length t"
    by (rule mult_le_mono)
  with assms(2) m show False by (simp add: ac_simps)
qed


text \<open>
  C4. For every true length of at least 1 the doubling step (one repetition, then
  repetitions while the length is below the window size) returns: after at most seven
  further doublings it stops with some power-of-two number of copies of the valid rows,
  of length at least the window size. A sequence of length 1 stops at 256 copies.
\<close>

theorem doubling_terminates:
  assumes "1 \<le> length t"
  shows "(\<exists>m spec. m \<le> 7 \<and> doubling_loop (tensor_repeat 2 t) = Some spec
            \<and> spec = tensor_repeat (2 * 2 ^ m) t \<and> window_size \<le> int (length spec))
         \<and> (length t = 1 \<longrightarrow> doubling_loop (tensor_repeat 2 t) = Some (tensor_repeat 256 t))"
proof
  from assms have t: "t \<noteq> []" by auto
  from doubling_loop_repeat [OF t, of 2] obtain m where
    m: "doubling_loop (tensor_repeat 2 t) = Some (tensor_repeat (2 * 2 ^ m) t)"
      "256 \<le> 2 * 2 ^ m * length t" "m = 0 \<or> 2 * 2 ^ (m - 1) * length t < 256"
    by auto
  from t m(3) have "m \<le> 7" by (rule doublings_bounded)
  moreover from m(2) have "int 256 \<le> int (length (tensor_repeat (2 * 2 ^ m) t))"
    by (simp only: length_tensor_repeat of_nat_le_iff)
  then have "window_size \<le> int (length (tensor_repeat (2 * 2 ^ m) t))"
    by (simp add: window_size_def)
  ultimately show "\<exists>m spec. m \<le> 7 \<and> doubling_loop (tensor_repeat 2 t) = Some spec
      \<and> spec = tensor_repeat (2 * 2 ^ m) t \<and> window_size \<le> int (length spec)"
    using m(1) by blast
next
  show "length t = 1 \<longrightarrow> doubling_loop (tensor_repeat 2 t) = Some (tensor_repeat 256 t)"
  proof
    assume "length t = 1"
    then have "2 * 2 ^ 7 * length t = 256" by simp
    from doubling_loop_exact [OF this] show "doubling_loop (tensor_repeat 2 t) = Some (tensor_repeat 256 t)"
      by simp
  qed
qed

theorem doubling_terminates_witness:
  "(\<exists>m spec. m \<le> 7 \<and> doubling_loop (tensor_repeat 2 [[0::int]]) = Some spec
      \<and> spec = tensor_repeat (2 * 2 ^ m) [[0]] \<and> window_size \<le> int (length spec))
   \<and> doubling_loop (tensor_repeat 2 [[0::int]]) = Some (tensor_repeat 256 [[0]])"
proof -
  have a: "1 \<le> length [[0::int]]" by simp
  have b: "length [[0::int]] = 1" by simp
  from doubling_terminates [OF a] b show ?thesis by blast
qed

section \<open>One iteration and the whole loop\<close>

lemma py_slice_to_nonneg: "0 \<le> n \<Longrightarrow> py_slice_to t n = take (nat n) t"
  by (simp add: py_slice_to_def slice_index_def min_def)

lemma py_slice_window:
  assumes "0 \<le> r" and "nat r + w \<le> length t"
  shows "py_slice t r (r + int w) = take w (drop (nat r) t)"
proof -
  from assms have "slice_index (length t) r = nat r"
    by (simp add: slice_index_def)
  moreover from assms have "slice_index (length t) (r + int w) = nat r + w"
    by (simp add: slice_index_def nat_add_distrib)
  ultimately show ?thesis
    by (simp add: py_slice_def)
qed

lemma randint_ok:
  assumes "generator_ok draw" and "low < high"
  shows "\<exists>r g'. randint draw low high g = (Inr r, g') \<and> low \<le> r \<and> r < high
           \<and> r = fst (draw g low high) \<and> g' = snd (draw g low high)"
  using assms by (simp add: randint_def generator_ok_def)

lemma nth_window:
  assumes "t \<noteq> []" and "r + 256 \<le> k * length t" and "j < 256"
  shows "take 256 (drop r (tensor_repeat k t)) ! j = t ! ((r + j) mod length t)"
proof -
  from assms have "r + j < k * length t" by simp
  then have "tensor_repeat k t ! (r + j) = t ! ((r + j) mod length t)"
    by (rule nth_tensor_repeat)
  with assms show ?thesis
    by (simp add: length_tensor_repeat)
qed

text \<open>What one iteration appends for an entry with a length between 1 and its extent.\<close>

lemma forward_step_valid:
  assumes ok: "generator_ok draw"
    and idx: "index < length batch"
    and n: "1 \<le> n" "n \<le> int (length (batch ! index))"
  shows "\<exists>w g' r. forward_step draw batch index n acc g = Return (acc @ [w]) g'
           \<and> length w = 256
           \<and> (\<forall>j < 256. w ! j = batch ! index ! ((r + j) mod nat n))"
proof -
  define v where "v = take (nat n) (batch ! index)"
  from n have lv: "length v = nat n" and v: "v \<noteq> []"
    by (auto simp: v_def)
  from n have sl: "py_slice_to (batch ! index) n = v"
    by (simp add: py_slice_to_nonneg v_def)
  from doubling_loop_repeat [OF v, of 2] obtain m where
    m: "doubling_loop (tensor_repeat 2 v) = Some (tensor_repeat (2 * 2 ^ m) v)"
      and ge: "256 \<le> 2 * 2 ^ m * length v"
    by auto
  define k :: nat where "k = 2 * 2 ^ m"
  define spec where "spec = tensor_repeat k v"
  have ls: "length spec = k * length v"
    by (simp add: spec_def length_tensor_repeat)
  have src: "v ! (i mod nat n) = batch ! index ! (i mod nat n)" for i
  proof -
    from n have "i mod nat n < nat n" by simp
    then show ?thesis by (simp add: v_def)
  qed
  show ?thesis
  proof (cases "256 < length spec")
    case True
    then have "(0::int) < int (length spec) - window_size"
      by (simp add: window_size_def)
    from randint_ok [OF ok this, of g] obtain r g' where
      r: "randint draw 0 (int (length spec) - window_size) g = (Inr r, g')"
        "0 \<le> r" "r < int (length spec) - window_size"
      by auto
    from r(2,3) have fit: "nat r + 256 \<le> length spec"
      by (simp add: window_size_def)
    with r(2) have "py_slice spec r (r + int 256) = take 256 (drop (nat r) spec)"
      by (intro py_slice_window) simp_all
    then have w: "py_slice spec r (r + window_size) = take 256 (drop (nat r) spec)"
      by (simp add: window_size_def)
    have step: "forward_step draw batch index n acc g
        = Return (acc @ [take 256 (drop (nat r) spec)]) g'"
      using idx True r(1) w m
      by (simp add: forward_step_def tensor_index_def sl k_def spec_def window_size_def)
    have len: "length (take 256 (drop (nat r) spec)) = 256"
      using fit by simp
    have "take 256 (drop (nat r) spec) ! j = batch ! index ! ((nat r + j) mod nat n)"
      if "j < 256" for j
    proof -
      from fit have "nat r + 256 \<le> k * length v" by (simp add: ls)
      from nth_window [OF v this that] show ?thesis
        by (simp add: spec_def lv src)
    qed
    with step len show ?thesis by blast
  next
    case False
    with ge have eq: "length spec = 256"
      by (simp add: ls k_def)
    have step: "forward_step draw batch index n acc g = Return (acc @ [spec]) g"
      using idx eq m
      by (simp add: forward_step_def tensor_index_def sl k_def spec_def window_size_def)
    have "spec ! j = batch ! index ! ((0 + j) mod nat n)" if "j < 256" for j
    proof -
      from that eq have "j < k * length v" by (simp add: ls)
      then have "tensor_repeat k v ! j = v ! (j mod length v)"
        by (rule nth_tensor_repeat)
      then show ?thesis by (simp add: spec_def lv src)
    qed
    with step eq show ?thesis by blast
  qed
qed

lemma forward_loop_valid:
  assumes ok: "generator_ok draw"
    and "index + length lengths \<le> length batch"
    and "\<forall>k < length lengths. 1 \<le> lengths ! k \<and> lengths ! k \<le> int (length (batch ! (index + k)))"
  shows "\<exists>ws g'. forward_loop draw batch index lengths acc g = Return (acc @ ws) g'
           \<and> length ws = length lengths
           \<and> (\<forall>k < length lengths. length (ws ! k) = 256
                 \<and> (\<exists>r. \<forall>j < 256. ws ! k ! j
                        = batch ! (index + k) ! ((r + j) mod nat (lengths ! k))))"
  using assms(2,3)
proof (induction lengths arbitrary: index acc g)
  case Nil
  then show ?case by simp
next
  case (Cons n rest)
  from Cons.prems have idx: "index < length batch" by simp
  from Cons.prems(2) have n: "1 \<le> n" "n \<le> int (length (batch ! index))"
    by auto
  from forward_step_valid [OF ok idx n, of acc g] obtain w g1 r where
    step: "forward_step draw batch index n acc g = Return (acc @ [w]) g1"
      and w: "length w = 256" "\<forall>j < 256. w ! j = batch ! index ! ((r + j) mod nat n)"
    by blast
  have "Suc index + length rest \<le> length batch"
    using Cons.prems(1) by simp
  moreover have "\<forall>k < length rest. 1 \<le> rest ! k
      \<and> rest ! k \<le> int (length (batch ! (Suc index + k)))"
    using Cons.prems(2) by auto
  ultimately obtain ws g' where
    loop: "forward_loop draw batch (Suc index) rest (acc @ [w]) g1 = Return ((acc @ [w]) @ ws) g'"
      and len: "length ws = length rest"
      and rows: "\<forall>k < length rest. length (ws ! k) = 256
          \<and> (\<exists>r. \<forall>j < 256. ws ! k ! j = batch ! (Suc index + k) ! ((r + j) mod nat (rest ! k)))"
    using Cons.IH [of "Suc index" "acc @ [w]" g1] by blast
  have 1: "forward_loop draw batch index (n # rest) acc g = Return (acc @ (w # ws)) g'"
    using step loop by simp
  have 2: "length (w # ws) = length (n # rest)"
    using len by simp
  have 3: "length ((w # ws) ! k) = 256
      \<and> (\<exists>r. \<forall>j < 256. (w # ws) ! k ! j = batch ! (index + k) ! ((r + j) mod nat ((n # rest) ! k)))"
    if "k < length (n # rest)" for k
  proof (cases k)
    case 0
    with w show ?thesis by auto
  next
    case (Suc k')
    with that have "k' < length rest" by simp
    with rows Suc show ?thesis by simp
  qed
  from 1 2 3 show ?case by blast
qed

lemma torch_stack_same:
  assumes "ts \<noteq> []" and "\<forall>t \<in> set ts. map length t = replicate R F"
  shows "torch_stack ts = Inr ts"
proof -
  from assms have "map length (hd ts) = replicate R F" by simp
  with assms show ?thesis
    by (simp add: torch_stack_def list_all_iff)
qed

lemma window_rows:
  assumes "length w = 256" and "\<forall>j < 256. length (w ! j) = F"
  shows "map length w = replicate 256 F"
  using assms by (intro nth_equalityI) simp_all

text \<open>
  The windowing stage on a batch of shape \<open>(N, L, F)\<close> and \<open>M\<close> lengths between 1 and
  \<open>L\<close>, where \<open>M\<close> is at least 1 and at most \<open>N\<close>.
\<close>

lemma unified_length_valid:
  assumes ok: "generator_ok draw"
    and shape: "batch_shape batch N L F"
    and lens: "valid_lengths lengths M L"
    and M: "0 < M" "M \<le> N"
  shows "\<exists>ws g'. unified_length draw batch lengths g = Return ws g'
           \<and> batch_shape ws M 256 F
           \<and> (\<forall>k < M. \<exists>r. \<forall>j < 256. ws ! k ! j = batch ! k ! ((r + j) mod nat (lengths ! k)))"
proof -
  from shape lens have l: "length batch = N" "length lengths = M"
    by (simp_all add: batch_shape_def valid_lengths_def)
  have ext: "length (batch ! k) = L" if "k < N" for k
    using shape that by (simp add: batch_shape_def)
  have pre: "\<forall>k < length lengths. 1 \<le> lengths ! k
      \<and> lengths ! k \<le> int (length (batch ! (0 + k)))"
    using lens l ext M by (simp add: valid_lengths_def)
  from l M have "0 + length lengths \<le> length batch" by simp
  from forward_loop_valid [OF ok this pre, of "[]" g] obtain ws g' where
    loop: "forward_loop draw batch 0 lengths [] g = Return ws g'"
      and len: "length ws = M"
      and rows: "\<forall>k < M. length (ws ! k) = 256
          \<and> (\<exists>r. \<forall>j < 256. ws ! k ! j = batch ! k ! ((r + j) mod nat (lengths ! k)))"
    using l by auto
  have win: "length w = 256 \<and> (\<forall>j < 256. length (w ! j) = F)" if "w \<in> set ws" for w
  proof -
    from that len obtain k where k: "k < M" "w = ws ! k"
      by (auto simp: in_set_conv_nth)
    with rows obtain r where
      w: "length w = 256" "\<forall>j < 256. w ! j = batch ! k ! ((r + j) mod nat (lengths ! k))"
      by blast
    from k M have kN: "k < N" by simp
    from lens k l have n: "1 \<le> lengths ! k" "lengths ! k \<le> int L"
      by (simp_all add: valid_lengths_def)
    have "length (w ! j) = F" if "j < 256" for j
    proof -
      from n have "(r + j) mod nat (lengths ! k) < nat (lengths ! k)" by simp
      with n ext [OF kN] have "(r + j) mod nat (lengths ! k) < length (batch ! k)"
        by linarith
      then have "batch ! k ! ((r + j) mod nat (lengths ! k)) \<in> set (batch ! k)"
        by (rule nth_mem)
      moreover from kN l have "batch ! k \<in> set batch" by simp
      ultimately have "length (batch ! k ! ((r + j) mod nat (lengths ! k))) = F"
        using shape by (simp add: batch_shape_def)
      with w that show ?thesis by simp
    qed
    with w(1) show ?thesis by simp
  qed
  then have "\<forall>w \<in> set ws. map length w = replicate 256 F"
    by (auto intro: window_rows)
  moreover from M len have "ws \<noteq> []" by auto
  ultimately have "torch_stack ws = Inr ws"
    by (rule torch_stack_same [rotated])
  with loop have 1: "unified_length draw batch lengths g = Return ws g'"
    by (simp add: unified_length_def)
  have 2: "batch_shape ws M 256 F"
    unfolding batch_shape_def
  proof (intro conjI ballI)
    show "length ws = M" by (rule len)
  next
    fix w assume "w \<in> set ws"
    then show "length w = 256" using win by simp
  next
    fix w row assume "w \<in> set ws" and "row \<in> set w"
    with win show "length row = F"
      by (auto simp: in_set_conv_nth)
  qed
  from 1 2 rows show ?thesis by blast
qed

section \<open>Independence of the padding\<close>

lemma forward_step_slice:
  assumes "index < length batch" and "length batch' = length batch"
    and "py_slice_to (batch' ! index) n = py_slice_to (batch ! index) n"
  shows "forward_step draw batch' index n acc g = forward_step draw batch index n acc g"
  using assms by (simp add: forward_step_def tensor_index_def)

lemma forward_loop_slice:
  assumes "length batch' = length batch"
    and "index + length lengths \<le> length batch"
    and "\<forall>k < length lengths. py_slice_to (batch' ! (index + k)) (lengths ! k)
           = py_slice_to (batch ! (index + k)) (lengths ! k)"
  shows "forward_loop draw batch' index lengths acc g = forward_loop draw batch index lengths acc g"
  using assms(2,3)
proof (induction lengths arbitrary: index acc g)
  case Nil
  show ?case by simp
next
  case (Cons n rest)
  from Cons.prems have "index < length batch" by simp
  moreover from Cons.prems(2) have "py_slice_to (batch' ! index) n = py_slice_to (batch ! index) n"
    by auto
  ultimately have step: "forward_step draw batch' index n acc g = forward_step draw batch index n acc g"
    using assms(1) by (intro forward_step_slice) simp_all
  have "Suc index + length rest \<le> length batch"
    using Cons.prems(1) by simp
  moreover have "\<forall>k < length rest. py_slice_to (batch' ! (Suc index + k)) (rest ! k)
      = py_slice_to (batch ! (Suc index + k)) (rest ! k)"
    using Cons.prems(2) by auto
  ultimately have "forward_loop draw batch' (Suc index) rest acc' g'
      = forward_loop draw batch (Suc index) rest acc' g'" for acc' g'
    by (rule Cons.IH)
  with step show ?case
    by (simp split: outcome.splits)
qed

lemma unified_length_slice:
  assumes "length batch' = length batch" and "length lengths \<le> length batch"
    and "\<forall>k < length lengths. py_slice_to (batch' ! k) (lengths ! k)
           = py_slice_to (batch ! k) (lengths ! k)"
  shows "unified_length draw batch' lengths g = unified_length draw batch lengths g"
proof -
  have "forward_loop draw batch' 0 lengths [] g = forward_loop draw batch 0 lengths [] g"
    using assms by (intro forward_loop_slice) simp_all
  then show ?thesis
    by (simp add: unified_length_def)
qed

text \<open>
  C1. On a batch of shape \<open>(N, L, F)\<close> with \<open>N\<close> lengths between 1 and \<open>L\<close>, the window
  of every element \<open>k\<close> with true length \<open>n\<close> has its rows from the valid region: for
  some offset \<open>r\<close>, row \<open>j\<close> of the window is row \<open>(r + j) mod n\<close> of the source, an
  index below \<open>n\<close>. Nothing of the padded region reaches the output: a batch with other
  rows at the indices from \<open>n\<close> on gives the same result.
\<close>

theorem window_from_valid_region:
  assumes "generator_ok draw" and "batch_shape batch N L F" and "valid_lengths lengths N L"
    and "k < N"
  shows "(\<exists>ws g'. unified_length draw batch lengths g = Return ws g'
            \<and> length (ws ! k) = nat window_size
            \<and> (\<exists>r. \<forall>j < nat window_size.
                  (r + j) mod nat (lengths ! k) < nat (lengths ! k)
                  \<and> ws ! k ! j = batch ! k ! ((r + j) mod nat (lengths ! k))))
         \<and> (\<forall>batch'. length batch' = N
               \<and> (\<forall>i < N. take (nat (lengths ! i)) (batch' ! i) = take (nat (lengths ! i)) (batch ! i))
               \<longrightarrow> unified_length draw batch' lengths g = unified_length draw batch lengths g)"
proof
  from assms(4) have N: "0 < N" "N \<le> N" by simp_all
  from unified_length_valid [OF assms(1-3) N, of g] obtain ws g' where
    ret: "unified_length draw batch lengths g = Return ws g'"
      and shape: "batch_shape ws N 256 F"
      and rows: "\<forall>k < N. \<exists>r. \<forall>j < 256. ws ! k ! j = batch ! k ! ((r + j) mod nat (lengths ! k))"
    by blast
  from shape assms(4) have "ws ! k \<in> set ws"
    by (simp add: batch_shape_def)
  with shape have len: "length (ws ! k) = nat window_size"
    by (simp add: batch_shape_def window_size_def)
  from assms(3,4) have "1 \<le> lengths ! k"
    by (simp add: valid_lengths_def)
  then have "(r + j) mod nat (lengths ! k) < nat (lengths ! k)" for r j
    by simp
  with rows assms(4) have "\<exists>r. \<forall>j < nat window_size.
      (r + j) mod nat (lengths ! k) < nat (lengths ! k)
      \<and> ws ! k ! j = batch ! k ! ((r + j) mod nat (lengths ! k))"
    by (simp add: window_size_def)
  with ret len show "\<exists>ws g'. unified_length draw batch lengths g = Return ws g'
      \<and> length (ws ! k) = nat window_size
      \<and> (\<exists>r. \<forall>j < nat window_size.
            (r + j) mod nat (lengths ! k) < nat (lengths ! k)
            \<and> ws ! k ! j = batch ! k ! ((r + j) mod nat (lengths ! k)))"
    by blast
next
  show "\<forall>batch'. length batch' = N
      \<and> (\<forall>i < N. take (nat (lengths ! i)) (batch' ! i) = take (nat (lengths ! i)) (batch ! i))
      \<longrightarrow> unified_length draw batch' lengths g = unified_length draw batch lengths g"
  proof (intro allI impI)
    fix batch' :: "'b list list list"
    assume a: "length batch' = N
      \<and> (\<forall>i < N. take (nat (lengths ! i)) (batch' ! i) = take (nat (lengths ! i)) (batch ! i))"
    from assms(2,3) have l: "length batch = N" "length lengths = N"
      by (simp_all add: batch_shape_def valid_lengths_def)
    have "py_slice_to (batch' ! i) (lengths ! i) = py_slice_to (batch ! i) (lengths ! i)"
      if "i < N" for i
    proof -
      from that l have "lengths ! i \<in> set lengths" by simp
      with assms(3) have "0 \<le> lengths ! i"
        by (auto simp: valid_lengths_def)
      with a that show ?thesis
        by (simp add: py_slice_to_nonneg)
    qed
    with a l show "unified_length draw batch' lengths g = unified_length draw batch lengths g"
      by (intro unified_length_slice) simp_all
  qed
qed

theorem window_from_valid_region_witness:
  "(\<exists>ws g'. unified_length counter_draw [[[1], [2], [0::int]]] [2] (0::nat) = Return ws g'
      \<and> length (ws ! 0) = nat window_size
      \<and> (\<exists>r. \<forall>j < nat window_size. (r + j) mod nat 2 < nat 2
            \<and> ws ! 0 ! j = [[1], [2], [0]] ! ((r + j) mod nat 2)))
   \<and> unified_length counter_draw [[[1], [2], [7::int]]] [2] (0::nat)
       = unified_length counter_draw [[[1], [2], [0]]] [2] 0"
proof -
  have 1: "batch_shape [[[1], [2], [0::int]]] 1 3 1"
    by (simp add: batch_shape_def)
  have 2: "valid_lengths [2] 1 3"
    by (simp add: valid_lengths_def)
  have 3: "(0::nat) < 1" by simp
  note inst = window_from_valid_region [OF counter_draw_ok 1 2 3, of 0]
  have h: "length [[[1], [2], [7::int]]] = 1
      \<and> (\<forall>i < 1. take (nat ([2] ! i)) ([[[1], [2], [7::int]]] ! i)
            = take (nat ([2] ! i)) ([[[1], [2], [0]]] ! i))"
    by (simp add: numeral_2_eq_2)
  from inst [THEN conjunct1, unfolded nth_Cons_0]
    inst [THEN conjunct2, rule_format, OF h]
  show ?thesis by (rule conjI)
qed

section \<open>Inputs outside the docstring\<close>

lemma forward_step_index_error:
  "length batch \<le> index \<Longrightarrow> forward_step draw batch index n acc g = Raise IndexError g"
  by (simp add: forward_step_def tensor_index_def)

lemma forward_step_exact:
  assumes "index < length batch"
    and "doubling_loop (tensor_repeat 2 (py_slice_to (batch ! index) n)) = Some spec"
    and "length spec = 256"
  shows "forward_step draw batch index n acc g = Return (acc @ [spec]) g"
  using assms by (simp add: forward_step_def tensor_index_def window_size_def)

lemma forward_step_diverge:
  assumes "index < length batch" and "py_slice_to (batch ! index) n = []"
  shows "forward_step draw batch index n acc g = Diverge"
proof -
  have "tensor_repeat 2 ([] :: 'a list list) = []"
    by (simp add: tensor_repeat_def)
  with assms show ?thesis
    by (simp add: forward_step_def tensor_index_def doubling_loop_empty)
qed

lemma forward_loop_append:
  "forward_loop draw batch index (xs @ ys) acc g =
     (case forward_loop draw batch index xs acc g of
        Return specs g' \<Rightarrow> forward_loop draw batch (index + length xs) ys specs g'
      | Raise e g' \<Rightarrow> Raise e g'
      | Diverge \<Rightarrow> Diverge)"
  by (induction xs arbitrary: index acc g) (simp_all split: outcome.splits)

lemma py_slice_to_clamp: "py_slice_to t (min n (int (length t))) = py_slice_to t n"
proof (cases "n \<le> int (length t)")
  case True
  then show ?thesis by (simp add: min_def)
next
  case False
  then have "length t \<le> nat n" by linarith
  with False show ?thesis
    by (simp add: py_slice_to_def slice_index_def min_def)
qed

lemma forward_step_clamp:
  assumes "\<forall>s \<in> set batch. length s = L"
  shows "forward_step draw batch index (min n (int L)) acc g = forward_step draw batch index n acc g"
proof (cases "index < length batch")
  case True
  with assms have "length (batch ! index) = L" by simp
  then have "py_slice_to (batch ! index) (min n (int L)) = py_slice_to (batch ! index) n"
    using py_slice_to_clamp [of "batch ! index" n] by simp
  with True show ?thesis
    by (simp add: forward_step_def tensor_index_def)
next
  case False
  then show ?thesis
    by (simp add: forward_step_index_error)
qed

lemma forward_loop_clamp:
  assumes "\<forall>s \<in> set batch. length s = L"
  shows "forward_loop draw batch index (map (\<lambda>n. min n (int L)) ls) acc g
           = forward_loop draw batch index ls acc g"
proof (induction ls arbitrary: index acc g)
  case Nil
  show ?case by simp
next
  case (Cons n rest)
  from assms have "forward_step draw batch index (min n (int L)) acc g
      = forward_step draw batch index n acc g"
    by (rule forward_step_clamp)
  with Cons.IH show ?case
    by (simp split: outcome.splits)
qed

lemma unified_length_too_many:
  assumes ok: "generator_ok draw"
    and shape: "batch_shape batch N L F"
    and lens: "valid_lengths lengths M L"
    and M: "N < M"
  shows "\<exists>g'. unified_length draw batch lengths g = Raise IndexError g'"
proof -
  from shape lens have l: "length batch = N" "length lengths = M"
    by (simp_all add: batch_shape_def valid_lengths_def)
  define xs where "xs = take N lengths"
  define ys where "ys = drop N lengths"
  from l M have split: "lengths = xs @ ys" and lx: "length xs = N" and ys: "ys \<noteq> []"
    by (simp_all add: xs_def ys_def)
  have pre: "\<forall>k < length xs. 1 \<le> xs ! k \<and> xs ! k \<le> int (length (batch ! (0 + k)))"
  proof (intro allI impI)
    fix k assume k: "k < length xs"
    with lx l M have "xs ! k \<in> set lengths"
      by (simp add: xs_def)
    with lens have "1 \<le> xs ! k \<and> xs ! k \<le> int L"
      by (auto simp: valid_lengths_def)
    moreover from k lx l shape have "length (batch ! k) = L"
      by (simp add: batch_shape_def)
    ultimately show "1 \<le> xs ! k \<and> xs ! k \<le> int (length (batch ! (0 + k)))"
      by simp
  qed
  from lx l have "0 + length xs \<le> length batch" by simp
  from forward_loop_valid [OF ok this pre, of "[]" g] obtain ws g1 where
    first: "forward_loop draw batch 0 xs [] g = Return ws g1"
    by auto
  from ys obtain n rest where "ys = n # rest"
    by (cases ys) auto
  with l lx have "forward_loop draw batch (0 + length xs) ys ws g1 = Raise IndexError g1"
    by (simp add: forward_step_index_error)
  with first have "forward_loop draw batch 0 lengths [] g = Raise IndexError g1"
    by (simp add: split forward_loop_append)
  then show ?thesis
    by (simp add: unified_length_def)
qed

text \<open>
  C2. On a batch of shape \<open>(N, L, F)\<close> that is not empty, with \<open>N\<close> lengths between 1
  and \<open>L\<close>, the stacked window batch has shape \<open>(N, W, F)\<close> with \<open>W = 256\<close>.
\<close>

theorem unified_length_shape:
  assumes "generator_ok draw" and "batch_shape batch N L F" and "valid_lengths lengths N L"
    and "0 < N"
  shows "\<exists>ws g'. unified_length draw batch lengths g = Return ws g'
           \<and> batch_shape ws N (nat window_size) F"
proof -
  from assms(4) have N: "0 < N" "N \<le> N" by simp_all
  from unified_length_valid [OF assms(1-3) N, of g] show ?thesis
    by (auto simp: window_size_def)
qed

theorem unified_length_shape_witness:
  "\<exists>ws g'. unified_length counter_draw [[[1], [2], [0::int]]] [2] (0::nat) = Return ws g'
     \<and> batch_shape ws 1 (nat window_size) 1"
proof -
  have 1: "batch_shape [[[1], [2], [0::int]]] 1 3 1"
    by (simp add: batch_shape_def)
  have 2: "valid_lengths [2] 1 3"
    by (simp add: valid_lengths_def)
  have 3: "(0::nat) < 1" by simp
  from unified_length_shape [OF counter_draw_ok 1 2 3] show ?thesis .
qed

text \<open>
  The empty batch has the shape \<open>(0, L, F)\<close> and an empty length vector, and
  \<open>torch.stack\<close> raises on the empty list of windows.
\<close>

theorem empty_batch_raises:
  "batch_shape ([] :: int list list list) 0 3 1 \<and> valid_lengths [] 0 3
   \<and> unified_length counter_draw ([] :: int list list list) [] (0::nat) = Raise RuntimeError 0"
  by (simp add: batch_shape_def valid_lengths_def unified_length_def torch_stack_def)

text \<open>
  C3. The windowing stage checks nothing about its inputs. For a batch of shape
  \<open>(N, L, F)\<close> and \<open>M\<close> lengths between 1 and \<open>L\<close>, \<open>M\<close> at least 1: with more
  lengths than batch entries the indexing of the batch raises \<open>IndexError\<close> and nothing
  is returned; with at most as many, the stage returns \<open>M\<close> windows and leaves the
  other entries aside: a batch with other entries from position \<open>M\<close> on gives the same
  outcome. A length above \<open>L\<close> is clamped by the slice: the outcome is the one for \<open>L\<close>.
\<close>

theorem no_input_validation:
  assumes "generator_ok draw" and "batch_shape batch N L F" and "valid_lengths lengths M L"
    and "0 < M"
  shows "(if N < M then \<exists>g'. unified_length draw batch lengths g = Raise IndexError g'
          else \<exists>ws g'. unified_length draw batch lengths g = Return ws g'
                 \<and> batch_shape ws M (nat window_size) F)
         \<and> (\<forall>ls. unified_length draw batch (map (\<lambda>n. min n (int L)) ls) g
                 = unified_length draw batch ls g)
         \<and> (M \<le> N \<longrightarrow>
              (\<forall>batch'. length batch' = N \<and> take M batch' = take M batch
                 \<longrightarrow> unified_length draw batch' lengths g = unified_length draw batch lengths g))"
proof (intro conjI)
  show "if N < M then \<exists>g'. unified_length draw batch lengths g = Raise IndexError g'
      else \<exists>ws g'. unified_length draw batch lengths g = Return ws g'
             \<and> batch_shape ws M (nat window_size) F"
  proof (cases "N < M")
    case True
    with unified_length_too_many [OF assms(1-3)] show ?thesis by simp
  next
    case False
    then have "M \<le> N" by simp
    from unified_length_valid [OF assms(1-3) assms(4) this, of g] False show ?thesis
      by (auto simp: window_size_def)
  qed
next
  from assms(2) have "\<forall>s \<in> set batch. length s = L"
    by (simp add: batch_shape_def)
  then have "forward_loop draw batch 0 (map (\<lambda>n. min n (int L)) ls) [] g
      = forward_loop draw batch 0 ls [] g" for ls
    by (rule forward_loop_clamp)
  then show "\<forall>ls. unified_length draw batch (map (\<lambda>n. min n (int L)) ls) g
      = unified_length draw batch ls g"
    by (simp add: unified_length_def)
next
  show "M \<le> N \<longrightarrow>
      (\<forall>batch'. length batch' = N \<and> take M batch' = take M batch
         \<longrightarrow> unified_length draw batch' lengths g = unified_length draw batch lengths g)"
  proof (intro impI allI)
    fix batch' :: "'b list list list"
    assume M: "M \<le> N" and a: "length batch' = N \<and> take M batch' = take M batch"
    from assms(2,3) have l: "length batch = N" "length lengths = M"
      by (simp_all add: batch_shape_def valid_lengths_def)
    have "batch' ! k = batch ! k" if "k < M" for k
    proof -
      from that have "batch' ! k = take M batch' ! k" by simp
      also from a have "\<dots> = take M batch ! k" by simp
      also from that have "\<dots> = batch ! k" by simp
      finally show ?thesis .
    qed
    with a l M show "unified_length draw batch' lengths g = unified_length draw batch lengths g"
      by (intro unified_length_slice) simp_all
  qed
qed

theorem no_input_validation_witness:
  "(\<exists>g'. unified_length counter_draw [[[1], [2::int]]] [2, 1] (0::nat) = Raise IndexError g')
   \<and> (\<exists>ws g'. unified_length counter_draw [[[1], [2::int]], [[3], [4]]] [2] (0::nat) = Return ws g'
          \<and> batch_shape ws 1 (nat window_size) 1)
   \<and> unified_length counter_draw [[[1], [2::int]]] (map (\<lambda>n. min n (int 2)) [5]) (0::nat)
       = unified_length counter_draw [[[1], [2]]] [5] 0
   \<and> unified_length counter_draw [[[1], [2::int]], [[9], [9]]] [2] (0::nat)
       = unified_length counter_draw [[[1], [2::int]], [[3], [4]]] [2] 0"
proof -
  have b1: "batch_shape [[[1], [2::int]]] 1 2 1"
    by (simp add: batch_shape_def)
  have b2: "batch_shape [[[1], [2::int]], [[3], [4]]] 2 2 1"
    by (simp add: batch_shape_def)
  have l2: "valid_lengths [2, 1] 2 2"
    by (simp add: valid_lengths_def)
  have l1: "valid_lengths [2] 1 2"
    by (simp add: valid_lengths_def)
  have m2: "(0::nat) < 2" and m1: "(0::nat) < 1" by simp_all
  have lt: "(1::nat) < 2" and nlt: "\<not> (2::nat) < 1" and le: "(1::nat) \<le> 2" by simp_all
  have same: "length [[[1], [2::int]], [[9], [9]]] = 2
      \<and> take 1 [[[1], [2::int]], [[9], [9]]] = take 1 [[[1], [2::int]], [[3], [4]]]"
    by simp
  note many = no_input_validation [OF counter_draw_ok b1 l2 m2, of 0, THEN conjunct1]
  note few = no_input_validation [OF counter_draw_ok b2 l1 m1, of 0, THEN conjunct1]
  note clamp = no_input_validation [OF counter_draw_ok b1 l2 m2, of 0,
      THEN conjunct2, THEN conjunct1, rule_format, of "[5]"]
  note rest = no_input_validation [OF counter_draw_ok b2 l1 m1, of 0,
      THEN conjunct2, THEN conjunct2, rule_format, OF le same]
  from many lt have "\<exists>g'. unified_length counter_draw [[[1], [2::int]]] [2, 1] (0::nat) = Raise IndexError g'"
    by (simp only: if_True)
  moreover from few nlt have "\<exists>ws g'. unified_length counter_draw [[[1], [2::int]], [[3], [4]]] [2] (0::nat)
      = Return ws g' \<and> batch_shape ws 1 (nat window_size) 1"
    by (simp only: if_False)
  ultimately show ?thesis
    using clamp rest by blast
qed

text \<open>
  Three calls that the stage does not refuse: a length of 5 for a sequence padded to 2
  rows, one length for a batch of two entries, and a length of 0, on which the doubling
  loop never ends.
\<close>

theorem unchecked_inputs:
  "unified_length counter_draw [[[1], [2::int]]] [5] (0::nat)
     = Return [tensor_repeat 128 [[1], [2]]] 0
   \<and> unified_length counter_draw [[[1], [2::int]], [[3], [4]]] [2] (0::nat)
     = Return [tensor_repeat 128 [[1], [2]]] 0
   \<and> unified_length counter_draw [[[1], [2::int]]] [0] (0::nat) = Diverge"
proof -
  have "(2::nat) * 2 ^ 6 * length [[1], [2::int]] = 256" by simp
  from doubling_loop_exact [OF this]
  have dbl: "doubling_loop (tensor_repeat 2 [[1], [2::int]]) = Some (tensor_repeat 128 [[1], [2]])"
    by simp
  have len: "length (tensor_repeat 128 [[1], [2::int]]) = 256"
    by (simp add: length_tensor_repeat)
  have stack: "torch_stack [tensor_repeat 128 [[1], [2::int]]] = Inr [tensor_repeat 128 [[1], [2]]]"
    by (simp add: torch_stack_def)
  have s5: "py_slice_to [[1], [2::int]] 5 = [[1], [2]]"
    and s2: "py_slice_to [[1], [2::int]] 2 = [[1], [2]]"
    and s0: "py_slice_to [[1], [2::int]] 0 = []"
    by (simp_all add: py_slice_to_def slice_index_def)
  have "forward_step counter_draw [[[1], [2::int]]] 0 5 [] (0::nat)
      = Return ([] @ [tensor_repeat 128 [[1], [2]]]) 0"
    by (rule forward_step_exact) (simp_all add: s5 dbl len)
  then have a: "unified_length counter_draw [[[1], [2::int]]] [5] (0::nat)
      = Return [tensor_repeat 128 [[1], [2]]] 0"
    by (simp add: unified_length_def stack)
  have "forward_step counter_draw [[[1], [2::int]], [[3], [4]]] 0 2 [] (0::nat)
      = Return ([] @ [tensor_repeat 128 [[1], [2]]]) 0"
    by (rule forward_step_exact) (simp_all add: s2 dbl len)
  then have b: "unified_length counter_draw [[[1], [2::int]], [[3], [4]]] [2] (0::nat)
      = Return [tensor_repeat 128 [[1], [2]]] 0"
    by (simp add: unified_length_def stack)
  have "forward_step counter_draw [[[1], [2::int]]] 0 0 [] (0::nat) = Diverge"
    by (rule forward_step_diverge) (simp_all add: s0)
  then have c: "unified_length counter_draw [[[1], [2::int]]] [0] (0::nat) = Diverge"
    by (simp add: unified_length_def)
  from a b c show ?thesis by blast
qed

section \<open>The random window and the exact fit\<close>

lemma doubling_loop_upto:
  assumes "256 \<le> k * 2 ^ m * length t" and "m = 0 \<or> k * 2 ^ (m - 1) * length t < 256"
  shows "doubling_loop (tensor_repeat k t) = Some (tensor_repeat (k * 2 ^ m) t)"
  using assms
proof (induction m arbitrary: k)
  case 0
  then show ?case
    by (simp add: doubling_loop_stop length_tensor_repeat)
next
  case (Suc m)
  from Suc.prems(2) have below: "k * 2 ^ m * length t < 256" by simp
  have "k * length t \<le> k * length t * 2 ^ m" by simp
  moreover from below have "k * length t * 2 ^ m < 256"
    by (simp add: ac_simps)
  ultimately have "k * length t < 256" by linarith
  then have step: "doubling_loop (tensor_repeat k t)
      = doubling_loop (tensor_repeat 2 (tensor_repeat k t))"
    by (intro doubling_loop_step) (simp add: length_tensor_repeat)
  from Suc.prems(1) have 1: "256 \<le> 2 * k * 2 ^ m * length t"
    by (simp add: ac_simps)
  have 2: "m = 0 \<or> 2 * k * 2 ^ (m - 1) * length t < 256"
  proof (cases m)
    case 0
    then show ?thesis by simp
  next
    case (Suc m')
    with below show ?thesis by (simp add: ac_simps)
  qed
  have "k * 2 ^ Suc m = 2 * k * 2 ^ m" by simp
  with step Suc.IH [OF 1 2] show ?case
    by (simp only: tensor_repeat_twice)
qed

lemma forward_step_random:
  assumes ok: "generator_ok draw"
    and idx: "index < length batch"
    and dbl: "doubling_loop (tensor_repeat 2 (py_slice_to (batch ! index) n)) = Some spec"
    and len: "256 < length spec"
  shows "\<exists>r g'. draw g 0 (int (length spec) - 256) = (r, g')
           \<and> 0 \<le> r \<and> r < int (length spec) - 256
           \<and> forward_step draw batch index n acc g
               = Return (acc @ [take 256 (drop (nat r) spec)]) g'"
proof -
  from len have "(0::int) < int (length spec) - 256" by simp
  from randint_ok [OF ok this, of g] obtain r g' where
    r: "randint draw 0 (int (length spec) - 256) g = (Inr r, g')"
      "0 \<le> r" "r < int (length spec) - 256"
      "r = fst (draw g 0 (int (length spec) - 256))"
      "g' = snd (draw g 0 (int (length spec) - 256))"
    by blast
  from r(2,3) have "nat r + 256 \<le> length spec" by simp
  with r(2) have "py_slice spec r (r + int 256) = take 256 (drop (nat r) spec)"
    by (intro py_slice_window) simp_all
  then have "py_slice spec r (r + 256) = take 256 (drop (nat r) spec)" by simp
  with idx dbl len r(1) have "forward_step draw batch index n acc g
      = Return (acc @ [take 256 (drop (nat r) spec)]) g'"
    by (simp add: forward_step_def tensor_index_def window_size_def)
  moreover from r(4,5) have "draw g 0 (int (length spec) - 256) = (r, g')"
    by simp
  ultimately show ?thesis
    using r(2,3) by blast
qed

lemma forward_step_drawn:
  assumes idx: "index < length batch"
    and dbl: "doubling_loop (tensor_repeat 2 (py_slice_to (batch ! index) n)) = Some spec"
    and len: "256 < length spec"
    and r: "draw g 0 (int (length spec) - 256) = (r, g')" "0 \<le> r" "r < int (length spec) - 256"
  shows "forward_step draw batch index n acc g
           = Return (acc @ [py_slice spec r (r + window_size)]) g'
         \<and> py_slice spec r (r + window_size) = take 256 (drop (nat r) spec)
         \<and> nat r + 256 \<le> length spec"
proof (intro conjI)
  from len r(1) have "randint draw 0 (int (length spec) - 256) g = (Inr r, g')"
    by (simp add: randint_def)
  with idx dbl len show "forward_step draw batch index n acc g
      = Return (acc @ [py_slice spec r (r + window_size)]) g'"
    by (simp add: forward_step_def tensor_index_def window_size_def)
  from r(2,3) show fit: "nat r + 256 \<le> length spec" by simp
  with r(2) have "py_slice spec r (r + int 256) = take 256 (drop (nat r) spec)"
    by (intro py_slice_window) simp_all
  then show "py_slice spec r (r + window_size) = take 256 (drop (nat r) spec)"
    by (simp add: window_size_def)
qed

text \<open>
  C9. In the iteration of \<open>forward\<close> whose doubled sequence \<open>spec\<close> has a length \<open>d\<close> above
  the window size, the range \<open>[0, d - W)\<close> handed to \<open>randint\<close> is not empty, so the
  draw raises nothing; the iteration appends \<open>spec[r : r + W]\<close> for the offset \<open>r\<close> drawn,
  with \<open>r + W\<close> at most \<open>d\<close>, and that slice has exactly \<open>W\<close> rows. This holds for every
  offset of the range: a generator that draws \<open>r\<close> makes the iteration append the \<open>W\<close>
  rows of \<open>spec\<close> from \<open>r\<close> on.
\<close>

theorem random_slice_in_bounds:
  assumes "index < length batch"
    and "doubling_loop (tensor_repeat 2 (py_slice_to (batch ! index) spec_length)) = Some spec"
    and "window_size < int (length spec)"
  shows "1 \<le> int (length spec) - window_size
         \<and> (generator_ok draw \<longrightarrow>
              (\<exists>r g'. randint draw 0 (int (length spec) - window_size) g = (Inr r, g')
                 \<and> 0 \<le> r \<and> r + window_size \<le> int (length spec)
                 \<and> forward_step draw batch index spec_length acc g
                     = Return (acc @ [py_slice spec r (r + window_size)]) g'
                 \<and> length (py_slice spec r (r + window_size)) = nat window_size))
         \<and> (\<forall>r. 0 \<le> r \<and> r < int (length spec) - window_size \<longrightarrow>
              nat r + nat window_size \<le> length spec
              \<and> forward_step (\<lambda>s low high. (r, s)) batch index spec_length acc g
                  = Return (acc @ [take (nat window_size) (drop (nat r) spec)]) g)"
proof (intro conjI allI impI)
  from assms(3) show "1 \<le> int (length spec) - window_size" by simp
next
  assume ok: "generator_ok draw"
  from assms(3) have len: "256 < length spec" and pos: "0 < int (length spec) - 256"
    by (simp_all add: window_size_def)
  from randint_ok [OF ok pos, of g] obtain r g' where
    r: "randint draw 0 (int (length spec) - 256) g = (Inr r, g')"
      "0 \<le> r" "r < int (length spec) - 256"
      "r = fst (draw g 0 (int (length spec) - 256))"
      "g' = snd (draw g 0 (int (length spec) - 256))"
    by blast
  from r(4,5) have d: "draw g 0 (int (length spec) - 256) = (r, g')" by simp
  note step0 = forward_step_drawn [where draw = draw and g = g and acc = acc,
      OF assms(1,2) len d r(2,3)]
  note step = step0 [THEN conjunct1] step0 [THEN conjunct2, THEN conjunct1]
    step0 [THEN conjunct2, THEN conjunct2]
  from step(2,3) have "length (py_slice spec r (r + window_size)) = nat window_size"
    by (simp add: window_size_def)
  moreover from r(3) have "r + window_size \<le> int (length spec)"
    by (simp add: window_size_def)
  moreover from r(1) have "randint draw 0 (int (length spec) - window_size) g = (Inr r, g')"
    by (simp add: window_size_def)
  ultimately show "\<exists>r g'. randint draw 0 (int (length spec) - window_size) g = (Inr r, g')
      \<and> 0 \<le> r \<and> r + window_size \<le> int (length spec)
      \<and> forward_step draw batch index spec_length acc g
          = Return (acc @ [py_slice spec r (r + window_size)]) g'
      \<and> length (py_slice spec r (r + window_size)) = nat window_size"
    using r(2) step(1) by blast
next
  fix r assume r: "0 \<le> r \<and> r < int (length spec) - window_size"
  from assms(3) have len: "256 < length spec"
    by (simp add: window_size_def)
  from r have r': "0 \<le> r" "r < int (length spec) - 256"
    by (simp_all add: window_size_def)
  have d: "(\<lambda>s low high. (r, s)) g 0 (int (length spec) - 256) = (r, g)" by simp
  note step0 = forward_step_drawn [where draw = "\<lambda>s low high. (r, s)" and g = g and acc = acc,
      OF assms(1,2) len d r']
  note step = step0 [THEN conjunct1] step0 [THEN conjunct2, THEN conjunct1]
    step0 [THEN conjunct2, THEN conjunct2]
  from step(3) show "nat r + nat window_size \<le> length spec"
    by (simp add: window_size_def)
  from step(1,2) show "forward_step (\<lambda>s low high. (r, s)) batch index spec_length acc g
      = Return (acc @ [take (nat window_size) (drop (nat r) spec)]) g"
    by (simp add: window_size_def)
qed

theorem random_slice_in_bounds_witness:
  "1 \<le> int (length (tensor_repeat 2 (replicate 142 [0::int]))) - window_size
   \<and> (\<exists>r g'. randint counter_draw 0
          (int (length (tensor_repeat 2 (replicate 142 [0::int]))) - window_size) (0::nat) = (Inr r, g')
        \<and> 0 \<le> r \<and> r + window_size \<le> int (length (tensor_repeat 2 (replicate 142 [0::int])))
        \<and> forward_step counter_draw [replicate 150 [0::int]] 0 142 [] (0::nat)
            = Return ([] @ [py_slice (tensor_repeat 2 (replicate 142 [0::int])) r (r + window_size)]) g'
        \<and> length (py_slice (tensor_repeat 2 (replicate 142 [0::int])) r (r + window_size))
            = nat window_size)
   \<and> nat 27 + nat window_size \<le> length (tensor_repeat 2 (replicate 142 [0::int]))
   \<and> forward_step (\<lambda>s low high. (27, s)) [replicate 150 [0::int]] 0 142 [] (0::nat)
       = Return ([] @ [take (nat window_size) (drop (nat 27)
           (tensor_repeat 2 (replicate 142 [0::int])))]) 0"
proof -
  have idx: "0 < length [replicate 150 [0::int]]" by simp
  have sl: "py_slice_to (replicate 150 [0::int]) 142 = replicate 142 [0]"
    using py_slice_to_nonneg [of 142 "replicate 150 [0::int]"] by simp
  have len: "length (tensor_repeat 2 (replicate 142 [0::int])) = 284"
    by (simp add: length_tensor_repeat)
  then have "256 \<le> length (tensor_repeat 2 (replicate 142 [0::int]))" by simp
  then have "doubling_loop (tensor_repeat 2 (replicate 142 [0::int]))
      = Some (tensor_repeat 2 (replicate 142 [0::int]))"
    by (rule doubling_loop_stop)
  then have dbl: "doubling_loop (tensor_repeat 2 (py_slice_to ([replicate 150 [0::int]] ! 0) 142))
      = Some (tensor_repeat 2 (replicate 142 [0::int]))"
    by (simp add: sl)
  have big: "window_size < int (length (tensor_repeat 2 (replicate 142 [0::int])))"
    by (simp add: len window_size_def)
  have r: "(0::int) \<le> 27 \<and> 27 < int (length (tensor_repeat 2 (replicate 142 [0::int]))) - window_size"
    by (simp add: len window_size_def)
  note inst = random_slice_in_bounds [OF idx dbl big, of counter_draw 0 "[]"]
  note a = inst [THEN conjunct1]
  note b = inst [THEN conjunct2, THEN conjunct1, rule_format, OF counter_draw_ok]
  note c = inst [THEN conjunct2, THEN conjunct2, rule_format, OF r]
  from a b c [THEN conjunct1] c [THEN conjunct2] show ?thesis
    by (intro conjI)
qed

text \<open>
  C6. When the doubled sequence has exactly the window size, it is appended as it is, the
  generator is left in the state it was in, and nothing is raised, whatever the generator
  would have drawn. The true lengths for which this happens are those with
  \<open>n * 2 ^ m = 128\<close>; for the length 128 the window is the valid rows twice.
\<close>

theorem exact_fit_no_randomness:
  assumes "index < length batch"
  shows "(doubling_loop (tensor_repeat 2 (py_slice_to (batch ! index) spec_length)) = Some spec
            \<and> int (length spec) = window_size
          \<longrightarrow> forward_step draw batch index spec_length acc g = Return (acc @ [spec]) g)
         \<and> (n \<le> length (batch ! index) \<and> n * 2 ^ m = 128
          \<longrightarrow> forward_step draw batch index (int n) acc g
                = Return (acc @ [tensor_repeat (2 * 2 ^ m) (take n (batch ! index))]) g
              \<and> int (length (tensor_repeat (2 * 2 ^ m) (take n (batch ! index)))) = window_size)
         \<and> (128 \<le> length (batch ! index)
          \<longrightarrow> forward_step draw batch index 128 acc g
                = Return (acc @ [take 128 (batch ! index) @ take 128 (batch ! index)]) g)"
proof (intro conjI impI)
  assume "doubling_loop (tensor_repeat 2 (py_slice_to (batch ! index) spec_length)) = Some spec
    \<and> int (length spec) = window_size"
  with assms show "forward_step draw batch index spec_length acc g = Return (acc @ [spec]) g"
    by (intro forward_step_exact) (simp_all add: window_size_def)
next
  assume a: "n \<le> length (batch ! index) \<and> n * 2 ^ m = 128"
  define v where "v = take n (batch ! index)"
  from a have lv: "length v = n" by (simp add: v_def)
  have sl: "py_slice_to (batch ! index) (int n) = v"
    by (simp add: py_slice_to_nonneg v_def)
  from a lv have "2 * 2 ^ m * length v = 256" by simp
  then have dbl: "doubling_loop (tensor_repeat 2 v) = Some (tensor_repeat (2 * 2 ^ m) v)"
    by (rule doubling_loop_exact)
  from a lv have len: "length (tensor_repeat (2 * 2 ^ m) v) = 256"
    by (simp add: length_tensor_repeat)
  from assms dbl len show "forward_step draw batch index (int n) acc g
      = Return (acc @ [tensor_repeat (2 * 2 ^ m) (take n (batch ! index))]) g"
    unfolding v_def [symmetric] by (intro forward_step_exact) (simp_all add: sl)
  from len show "int (length (tensor_repeat (2 * 2 ^ m) (take n (batch ! index)))) = window_size"
    by (simp add: v_def window_size_def)
next
  assume a: "128 \<le> length (batch ! index)"
  define v where "v = take 128 (batch ! index)"
  from a have lv: "length v = 128" by (simp add: v_def)
  have sl: "py_slice_to (batch ! index) 128 = v"
    by (simp add: py_slice_to_nonneg v_def)
  from lv have "256 \<le> length (tensor_repeat 2 v)"
    by (simp add: length_tensor_repeat)
  then have dbl: "doubling_loop (tensor_repeat 2 v) = Some (tensor_repeat 2 v)"
    by (rule doubling_loop_stop)
  have rep: "tensor_repeat 2 v = v @ v"
    by (simp add: tensor_repeat_def numeral_2_eq_2)
  from lv have len: "length (v @ v) = 256" by simp
  from assms dbl len show "forward_step draw batch index 128 acc g
      = Return (acc @ [take 128 (batch ! index) @ take 128 (batch ! index)]) g"
    unfolding v_def [symmetric] by (intro forward_step_exact) (simp_all add: sl rep)
qed

theorem exact_fit_no_randomness_witness:
  "forward_step counter_draw [replicate 150 [0::int]] 0 (int 4) [] (7::nat)
     = Return ([] @ [tensor_repeat (2 * 2 ^ 5) (take 4 ([replicate 150 [0::int]] ! 0))]) 7
   \<and> forward_step counter_draw [replicate 150 [0::int]] 0 128 [] (7::nat)
     = Return ([] @ [take 128 ([replicate 150 [0::int]] ! 0) @ take 128 ([replicate 150 [0]] ! 0)]) 7"
proof -
  have i: "0 < length [replicate 150 [0::int]]" by simp
  have a: "4 \<le> length ([replicate 150 [0::int]] ! 0) \<and> (4::nat) * 2 ^ 5 = 128" by simp
  have b: "128 \<le> length ([replicate 150 [0::int]] ! 0)" by simp
  note inst = exact_fit_no_randomness [OF i, of _ _ counter_draw "[]" 7 4 5]
  from inst [THEN conjunct2, THEN conjunct1, rule_format, OF a, THEN conjunct1]
    inst [THEN conjunct2, THEN conjunct2, rule_format, OF b]
  show ?thesis by (rule conjI)
qed

text \<open>
  C5. When the doubled length \<open>d\<close> is above the window size, the offset is the number that
  the generator draws from \<open>[0, d - W)\<close>, and the window is the \<open>W\<close> rows of the doubled
  sequence from that offset on. For one sequence of true length 142 with 80 features, one
  repetition gives 284 rows, the offset is below 28, the result has shape \<open>(1, 256, 80)\<close>,
  and row \<open>j\<close> of the window is row \<open>(r + j) mod 142\<close> of the source.
\<close>

theorem random_window:
  assumes "generator_ok draw"
  shows "(index < length batch
            \<and> doubling_loop (tensor_repeat 2 (py_slice_to (batch ! index) n)) = Some spec
            \<and> window_size < int (length spec)
          \<longrightarrow> (\<exists>r g'. draw g 0 (int (length spec) - window_size) = (r, g')
                 \<and> 0 \<le> r \<and> r < int (length spec) - window_size
                 \<and> forward_step draw batch index n acc g
                     = Return (acc @ [take (nat window_size) (drop (nat r) spec)]) g'))
         \<and> (batch_shape batch 1 L 80 \<and> 142 \<le> L
          \<longrightarrow> (\<exists>r g' w. draw g 0 28 = (r, g') \<and> 0 \<le> r \<and> r < 28
                 \<and> unified_length draw batch [142] g = Return [w] g'
                 \<and> w = take 256 (drop (nat r) (tensor_repeat 2 (take 142 (batch ! 0))))
                 \<and> length (tensor_repeat 2 (take 142 (batch ! 0))) = 284
                 \<and> batch_shape [w] 1 256 80
                 \<and> (\<forall>j < 256. w ! j = batch ! 0 ! ((nat r + j) mod 142))))"
proof (intro conjI impI)
  assume a: "index < length batch
    \<and> doubling_loop (tensor_repeat 2 (py_slice_to (batch ! index) n)) = Some spec
    \<and> window_size < int (length spec)"
  then have "256 < length spec"
    by (simp add: window_size_def)
  from forward_step_random [OF assms _ _ this, of index batch n g acc] a
  show "\<exists>r g'. draw g 0 (int (length spec) - window_size) = (r, g')
      \<and> 0 \<le> r \<and> r < int (length spec) - window_size
      \<and> forward_step draw batch index n acc g
          = Return (acc @ [take (nat window_size) (drop (nat r) spec)]) g'"
    by (simp add: window_size_def)
next
  assume a: "batch_shape batch 1 L 80 \<and> 142 \<le> L"
  then have lb: "length batch = 1"
    by (simp add: batch_shape_def)
  then have "batch ! 0 \<in> set batch" by simp
  with a have l0: "length (batch ! 0) = L"
    and rows: "\<forall>row \<in> set (batch ! 0). length row = 80"
    unfolding batch_shape_def by blast+
  define v where "v = take 142 (batch ! 0)"
  from a l0 have lv: "length v = 142" and v: "v \<noteq> []"
    by (auto simp: v_def)
  have sl: "py_slice_to (batch ! 0) 142 = v"
    by (simp add: py_slice_to_nonneg v_def)
  define spec where "spec = tensor_repeat 2 v"
  from lv have ls: "length spec = 284"
    by (simp add: spec_def length_tensor_repeat)
  then have "256 \<le> length spec" by simp
  then have dbl: "doubling_loop (tensor_repeat 2 (py_slice_to (batch ! 0) 142)) = Some spec"
    unfolding sl spec_def [symmetric] by (rule doubling_loop_stop)
  from lb have idx: "0 < length batch" by simp
  from ls have "256 < length spec" by simp
  from forward_step_random [OF assms idx dbl this, of g "[]"] obtain r g' where
    r: "draw g 0 28 = (r, g')" "0 \<le> r" "r < 28"
      and step: "forward_step draw batch 0 142 [] g = Return [take 256 (drop (nat r) spec)] g'"
    by (auto simp: ls)
  define w where "w = take 256 (drop (nat r) spec)"
  from r(2,3) have fit: "nat r + 256 \<le> 2 * length v"
    by (simp add: lv)
  from fit have lw: "length w = 256"
    by (simp add: w_def ls lv)
  have nth: "w ! j = batch ! 0 ! ((nat r + j) mod 142)" if "j < 256" for j
  proof -
    have "(nat r + j) mod 142 < 142" by simp
    then have "v ! ((nat r + j) mod 142) = batch ! 0 ! ((nat r + j) mod 142)"
      by (simp add: v_def)
    with nth_window [OF v fit that] show ?thesis
      by (simp add: w_def spec_def lv)
  qed
  have wrows: "length row = 80" if "row \<in> set w" for row
  proof -
    from that lw obtain j where j: "j < 256" "row = w ! j"
      by (auto simp: in_set_conv_nth)
    have "(nat r + j) mod 142 < 142" by simp
    with a l0 have "(nat r + j) mod 142 < length (batch ! 0)" by linarith
    then have "batch ! 0 ! ((nat r + j) mod 142) \<in> set (batch ! 0)"
      by (rule nth_mem)
    with rows nth [OF j(1)] j(2) show ?thesis by simp
  qed
  have shape: "batch_shape [w] 1 256 80"
    using lw wrows by (simp add: batch_shape_def)
  have "map length w = replicate 256 80"
    using lw wrows by (intro window_rows) simp_all
  then have "torch_stack [w] = Inr [w]"
    by (simp add: torch_stack_def)
  with step have ret: "unified_length draw batch [142] g = Return [w] g'"
    by (simp add: unified_length_def w_def)
  from r ret shape nth ls show "\<exists>r g' w. draw g 0 28 = (r, g') \<and> 0 \<le> r \<and> r < 28
      \<and> unified_length draw batch [142] g = Return [w] g'
      \<and> w = take 256 (drop (nat r) (tensor_repeat 2 (take 142 (batch ! 0))))
      \<and> length (tensor_repeat 2 (take 142 (batch ! 0))) = 284
      \<and> batch_shape [w] 1 256 80
      \<and> (\<forall>j < 256. w ! j = batch ! 0 ! ((nat r + j) mod 142))"
    unfolding w_def spec_def v_def by blast
qed

theorem random_window_witness:
  "(\<exists>r g'. counter_draw (0::nat) 0
          (int (length (tensor_repeat 2 (take 142 ([replicate 150 (replicate 80 (0::int))] ! 0)))) - window_size) = (r, g')
      \<and> 0 \<le> r
      \<and> r < int (length (tensor_repeat 2 (take 142 ([replicate 150 (replicate 80 (0::int))] ! 0)))) - window_size
      \<and> forward_step counter_draw [replicate 150 (replicate 80 (0::int))] 0 142 [] (0::nat)
          = Return ([] @ [take (nat window_size) (drop (nat r)
              (tensor_repeat 2 (take 142 ([replicate 150 (replicate 80 (0::int))] ! 0))))]) g')
   \<and> (\<exists>r g' w. counter_draw (0::nat) 0 28 = (r, g') \<and> 0 \<le> r \<and> r < 28
      \<and> unified_length counter_draw [replicate 150 (replicate 80 (0::int))] [142] (0::nat) = Return [w] g'
      \<and> w = take 256 (drop (nat r) (tensor_repeat 2 (take 142 ([replicate 150 (replicate 80 (0::int))] ! 0))))
      \<and> length (tensor_repeat 2 (take 142 ([replicate 150 (replicate 80 (0::int))] ! 0))) = 284
      \<and> batch_shape [w] 1 256 80
      \<and> (\<forall>j < 256. w ! j = [replicate 150 (replicate 80 (0::int))] ! 0 ! ((nat r + j) mod 142)))"
proof -
  have sl: "py_slice_to (replicate 150 (replicate 80 (0::int))) 142 = replicate 142 (replicate 80 0)"
    using py_slice_to_nonneg [of 142 "replicate 150 (replicate 80 (0::int))"] by simp
  have len: "length (tensor_repeat 2 (take 142 ([replicate 150 (replicate 80 (0::int))] ! 0))) = 284"
    by (simp add: length_tensor_repeat)
  then have "256 \<le> length (tensor_repeat 2 (take 142 ([replicate 150 (replicate 80 (0::int))] ! 0)))"
    by simp
  then have "doubling_loop (tensor_repeat 2 (take 142 ([replicate 150 (replicate 80 (0::int))] ! 0))) = Some (tensor_repeat 2 (take 142 ([replicate 150 (replicate 80 (0::int))] ! 0)))"
    by (rule doubling_loop_stop)
  with len have a: "0 < length [replicate 150 (replicate 80 (0::int))]
      \<and> doubling_loop (tensor_repeat 2 (py_slice_to ([replicate 150 (replicate 80 (0::int))] ! 0) 142))
          = Some (tensor_repeat 2 (take 142 ([replicate 150 (replicate 80 (0::int))] ! 0)))
      \<and> window_size < int (length (tensor_repeat 2 (take 142 ([replicate 150 (replicate 80 (0::int))] ! 0))))"
    by (simp add: sl window_size_def)
  have b: "batch_shape [replicate 150 (replicate 80 (0::int))] 1 150 80 \<and> (142::nat) \<le> 150"
    by (simp add: batch_shape_def)
  from random_window [OF counter_draw_ok, THEN conjunct1, rule_format, OF a]
    random_window [OF counter_draw_ok, THEN conjunct2, rule_format, OF b]
  show ?thesis by (rule conjI)
qed

section \<open>The generator as the only source of variation\<close>

lemma forward_step_alike:
  assumes "draws_alike R draw draw'" and "R g h"
  shows "rel_outcome (=) R (forward_step draw batch index n acc g)
           (forward_step draw' batch index n acc h)"
proof -
  from assms have "fst (draw g low high) = fst (draw' h low high)"
    and "R (snd (draw g low high)) (snd (draw' h low high))" for low high
    by (simp_all add: draws_alike_def)
  with assms(2) show ?thesis
    by (simp add: forward_step_def randint_def Let_def
        split: sum.splits option.splits)
qed

lemma forward_loop_alike:
  assumes "draws_alike R draw draw'" and "R g h"
  shows "rel_outcome (=) R (forward_loop draw batch index lengths acc g)
           (forward_loop draw' batch index lengths acc h)"
  using assms(2)
proof (induction lengths arbitrary: index acc g h)
  case Nil
  then show ?case by simp
next
  case (Cons n rest)
  from forward_step_alike [OF assms(1) Cons.prems, of batch index n acc]
  show ?case
    by (cases "forward_step draw batch index n acc g";
        cases "forward_step draw' batch index n acc h")
      (simp_all add: Cons.IH)
qed

lemma unified_length_alike:
  assumes "draws_alike R draw draw'" and "R g h"
  shows "rel_outcome (=) R (unified_length draw batch lengths g)
           (unified_length draw' batch lengths h)"
proof -
  from forward_loop_alike [OF assms, of batch 0 lengths "[]"]
  show ?thesis
    by (cases "forward_loop draw batch 0 lengths [] g";
        cases "forward_loop draw' batch 0 lengths [] h")
      (simp_all add: unified_length_def split: sum.splits)
qed

text \<open>
  The generator is the only thing besides its inputs that the windowing stage depends
  on. From states out of which the same numbers are drawn, two calls on the same inputs
  return the same windows; from any two states, and with any two generators, the results
  on inputs as the docstring describes them have the same shape \<open>(N, W, F)\<close>.
\<close>

lemma same_state_same_windows:
  assumes "generator_ok draw" and "generator_ok draw'"
    and "batch_shape batch N L F" and "valid_lengths lengths N L" and "0 < N"
  shows "(\<exists>ws ws' g1 g2. unified_length draw batch lengths g = Return ws g1
            \<and> unified_length draw' batch lengths g' = Return ws' g2
            \<and> batch_shape ws N (nat window_size) F
            \<and> batch_shape ws' N (nat window_size) F)
         \<and> (draws_alike R draw draw' \<and> R g g'
          \<longrightarrow> (\<exists>ws g1 g2. unified_length draw batch lengths g = Return ws g1
                 \<and> unified_length draw' batch lengths g' = Return ws g2 \<and> R g1 g2))"
proof -
  from assms(5) have N: "0 < N" "N \<le> N" by simp_all
  from unified_length_valid [OF assms(1,3,4) N, of g] obtain ws g1 where
    1: "unified_length draw batch lengths g = Return ws g1" "batch_shape ws N 256 F"
    by blast
  from unified_length_valid [OF assms(2,3,4) N, of g'] obtain ws' g2 where
    2: "unified_length draw' batch lengths g' = Return ws' g2" "batch_shape ws' N 256 F"
    by blast
  have "ws' = ws \<and> R g1 g2" if "draws_alike R draw draw' \<and> R g g'"
  proof -
    from that have "rel_outcome (=) R (unified_length draw batch lengths g)
        (unified_length draw' batch lengths g')"
      by (intro unified_length_alike) simp_all
    with 1(1) 2(1) show ?thesis by simp
  qed
  with 1 2 show ?thesis
    by (auto simp: window_size_def)
qed

text \<open>
  Two calls in a row with the same batch and lengths, on a sequence whose doubled length
  is above the window size: the first call makes one draw, and the second, from the state
  the first one left, returns another window.
\<close>

lemma successive_calls_differ:
  "unified_length counter_draw [[[0], [1], [2::int]]] [3] (0::nat)
     = Return [take 256 (drop 0 (tensor_repeat 128 [[0], [1], [2::int]]))] 1
   \<and> unified_length counter_draw [[[0], [1], [2::int]]] [3] (1::nat)
     = Return [take 256 (drop 1 (tensor_repeat 128 [[0], [1], [2::int]]))] 2
   \<and> take 256 (drop 0 (tensor_repeat 128 [[0], [1], [2::int]]))
     \<noteq> take 256 (drop 1 (tensor_repeat 128 [[0], [1], [2::int]]))"
proof -
  define v where "v = [[0], [1], [2::int]]"
  have lv: "length v = 3" and v: "v \<noteq> []"
    by (simp_all add: v_def)
  have sl: "py_slice_to v 3 = v"
    by (simp add: py_slice_to_def slice_index_def lv)
  have "doubling_loop (tensor_repeat 2 v) = Some (tensor_repeat (2 * 2 ^ 6) v)"
    by (rule doubling_loop_upto) (simp_all add: lv)
  then have dbl: "doubling_loop (tensor_repeat 2 (py_slice_to ([v] ! 0) 3))
      = Some (tensor_repeat 128 v)"
    by (simp add: sl)
  have len: "length (tensor_repeat 128 v) = 384"
    by (simp add: length_tensor_repeat lv)
  then have big: "256 < length (tensor_repeat 128 v)" by simp
  have idx: "0 < length [v]" by simp
  have call: "unified_length counter_draw [v] [3] g
      = Return [take 256 (drop (g mod 128) (tensor_repeat 128 v))] (Suc g)" for g :: nat
  proof -
    from forward_step_random [OF counter_draw_ok idx dbl big, of g "[]"] obtain r g' where
      r: "counter_draw g 0 (int (length (tensor_repeat 128 v)) - 256) = (r, g')"
        and step: "forward_step counter_draw [v] 0 3 [] g
          = Return ([] @ [take 256 (drop (nat r) (tensor_repeat 128 v))]) g'"
      by blast
    from r have "r = int g mod 128" and "g' = Suc g"
      by (simp_all add: counter_draw_def len)
    then have "nat r = g mod 128" and "g' = Suc g"
      by (simp_all add: nat_mod_distrib)
    with step have "forward_step counter_draw [v] 0 3 [] g
        = Return [take 256 (drop (g mod 128) (tensor_repeat 128 v))] (Suc g)"
      by simp
    then show ?thesis
      by (simp add: unified_length_def torch_stack_def)
  qed
  have row: "take 256 (drop r (tensor_repeat 128 v)) ! 0 = v ! (r mod 3)" if "r < 128" for r
  proof -
    from that have "r + 256 \<le> 128 * length v" by (simp add: lv)
    from nth_window [OF v this, of 0] show ?thesis by (simp add: lv)
  qed
  have "take 256 (drop 0 (tensor_repeat 128 v)) ! 0 = [0]"
    using row [of 0] by (simp add: v_def)
  moreover have "take 256 (drop 1 (tensor_repeat 128 v)) ! 0 = [1]"
    using row [of 1] by (simp add: v_def)
  ultimately have "take 256 (drop 0 (tensor_repeat 128 v))
      \<noteq> take 256 (drop 1 (tensor_repeat 128 v))"
    by (metis list.inject zero_neq_one)
  with call [of 0] call [of 1] show ?thesis
    by (simp add: v_def)
qed

section \<open>The log-magnitude loss\<close>

lemma tensor_sum_Fin: "tensor_sum (map Fin rs) = Fin (sum_list rs)"
  by (induction rs) (simp_all add: tensor_sum_def)

lemma tensor_mean_Fin:
  "rs \<noteq> [] \<Longrightarrow> tensor_mean (map Fin rs) = Fin (sum_list rs / real (length rs))"
  by (simp add: tensor_mean_def tensor_sum_Fin)

lemma torch_log_positive:
  "\<forall>v \<in> set t. 0 < v \<Longrightarrow> torch_log t = map (\<lambda>v. Fin (ln v)) t"
  by (simp add: torch_log_def)

lemma abs_diff_Fin:
  "length ys = length xs \<Longrightarrow>
     map2 (\<lambda>a b. fabs (fsub a b)) (map (\<lambda>v. Fin (f v)) ys) (map (\<lambda>v. Fin (f v)) xs)
       = map Fin (map2 (\<lambda>b a. \<bar>f b - f a\<bar>) ys xs)"
  by (induction ys xs rule: list_induct2) simp_all

lemma sum_list_map2_nth:
  assumes "length ys = length xs"
  shows "sum_list (map2 h ys xs) = (\<Sum>i < length xs. h (ys ! i) (xs ! i))"
proof -
  have "sum_list (map2 h ys xs) = (\<Sum>i = 0..<length (map2 h ys xs). map2 h ys xs ! i)"
    by (rule sum_list_sum_nth)
  also have "\<dots> = (\<Sum>i = 0..<length xs. h (ys ! i) (xs ! i))"
    using assms by (intro sum.cong) simp_all
  finally show ?thesis
    by (simp add: atLeast0LessThan)
qed

lemma loss_forward_positive:
  assumes "length x = length y" and "\<forall>v \<in> set x. 0 < v" and "\<forall>v \<in> set y. 0 < v"
  shows "loss_forward x y = Inr (log_l1_mean x y)"
proof -
  from assms(1) have len: "length y = length x" by simp
  have bc: "broadcast_tensors (torch_log y) (torch_log x) = Inr (torch_log y, torch_log x)"
    using assms(1) by (simp add: broadcast_tensors_def torch_log_def)
  have diff: "map2 (\<lambda>a b. fabs (fsub a b)) (torch_log y) (torch_log x)
      = map Fin (map2 (\<lambda>b a. \<bar>ln b - ln a\<bar>) y x)"
    using assms(2,3) abs_diff_Fin [OF len, of ln] by (simp add: torch_log_positive)
  have "tensor_mean (map Fin (map2 (\<lambda>b a. \<bar>ln b - ln a\<bar>) y x)) = log_l1_mean x y"
  proof (cases "x = []")
    case True
    then show ?thesis
      by (simp add: tensor_mean_def tensor_sum_def log_l1_mean_def)
  next
    case False
    define rs where "rs = map2 (\<lambda>b a. \<bar>ln b - ln a\<bar>) y x"
    from len have lr: "length rs = length x"
      by (simp add: rs_def)
    with False have "rs \<noteq> []" by auto
    then have "tensor_mean (map Fin rs) = Fin (sum_list rs / real (length rs))"
      by (rule tensor_mean_Fin)
    also have "sum_list rs = (\<Sum>i < length x. \<bar>ln (y ! i) - ln (x ! i)\<bar>)"
      unfolding rs_def using len by (rule sum_list_map2_nth)
    finally have "tensor_mean (map Fin rs)
        = Fin ((\<Sum>i < length x. \<bar>ln (y ! i) - ln (x ! i)\<bar>) / real (length x))"
      by (simp only: lr)
    with False show ?thesis
      unfolding rs_def [symmetric] by (simp add: log_l1_mean_def)
  qed
  with bc diff show ?thesis
    by (simp add: loss_forward_def l1_loss_def)
qed

lemma loss_forward_instance:
  "loss_forward x y = loss_forward_with log_entry fsub fabs tensor_mean x y"
proof -
  have "torch_log t = map log_entry t" for t
    by (simp add: torch_log_def log_entry_def)
  then show ?thesis
    by (simp add: loss_forward_def loss_forward_with_def l1_loss_def l1_loss_with_def)
qed

lemma map2_by_index:
  assumes "length ys = length xs"
  shows "map2 h (map f ys) (map f xs) = map (\<lambda>i. h (f (ys ! i)) (f (xs ! i))) [0..<length xs]"
  using assms by (intro nth_equalityI) simp_all

lemma map2_replicate_left:
  "map2 h (replicate (length xs) c) xs = map (\<lambda>v. h c v) xs"
  by (intro nth_equalityI) simp_all

lemma map2_replicate_right:
  "map2 h ys (replicate (length ys) c) = map (\<lambda>v. h v c) ys"
  by (intro nth_equalityI) simp_all

text \<open>
  C8. For two tensors of one shape, \<open>LogSTFTMagnitudeLoss.forward\<close> returns the mean
  over all elements of the absolute difference between the logarithm of \<open>y_mag\<close> and the
  logarithm of \<open>x_mag\<close>, as the float operations of the library compute them. A tensor
  of one element is broadcast against the other; two tensors of other different sizes
  raise \<open>RuntimeError\<close>.
\<close>

theorem loss_is_log_l1_mean:
  "(length x_mag = length y_mag \<longrightarrow>
      loss_forward_with op_log op_sub op_abs op_mean x_mag y_mag
        = Inr (log_l1_mean_with op_log op_sub op_abs op_mean x_mag y_mag))
   \<and> (length y_mag = 1 \<and> length x_mag \<noteq> 1 \<longrightarrow>
      loss_forward_with op_log op_sub op_abs op_mean x_mag y_mag
        = Inr (op_mean (map (\<lambda>v. op_abs (op_sub (op_log (hd y_mag)) (op_log v))) x_mag)))
   \<and> (length x_mag = 1 \<and> length y_mag \<noteq> 1 \<longrightarrow>
      loss_forward_with op_log op_sub op_abs op_mean x_mag y_mag
        = Inr (op_mean (map (\<lambda>v. op_abs (op_sub (op_log v) (op_log (hd x_mag)))) y_mag)))
   \<and> (length x_mag \<noteq> length y_mag \<and> length x_mag \<noteq> 1 \<and> length y_mag \<noteq> 1 \<longrightarrow>
      loss_forward_with op_log op_sub op_abs op_mean x_mag y_mag = Inl RuntimeError)"
proof (intro conjI impI)
  assume "length x_mag = length y_mag"
  then have len: "length y_mag = length x_mag" by simp
  then have "broadcast_tensors (map op_log y_mag) (map op_log x_mag)
      = Inr (map op_log y_mag, map op_log x_mag)"
    by (simp add: broadcast_tensors_def)
  then show "loss_forward_with op_log op_sub op_abs op_mean x_mag y_mag
      = Inr (log_l1_mean_with op_log op_sub op_abs op_mean x_mag y_mag)"
    using map2_by_index [OF len, of "\<lambda>a b. op_abs (op_sub a b)" op_log]
    by (simp add: loss_forward_with_def l1_loss_with_def log_l1_mean_with_def)
next
  assume a: "length y_mag = 1 \<and> length x_mag \<noteq> 1"
  then have "y_mag \<noteq> []" by auto
  then have hd: "hd (map op_log y_mag) = op_log (hd y_mag)"
    by (rule hd_map)
  from a have "broadcast_tensors (map op_log y_mag) (map op_log x_mag)
      = Inr (replicate (length (map op_log x_mag)) (op_log (hd y_mag)), map op_log x_mag)"
    by (simp add: broadcast_tensors_def hd)
  moreover have "map2 (\<lambda>a b. op_abs (op_sub a b))
      (replicate (length (map op_log x_mag)) (op_log (hd y_mag))) (map op_log x_mag)
      = map (\<lambda>v. op_abs (op_sub (op_log (hd y_mag)) (op_log v))) x_mag"
    by (simp only: map2_replicate_left) (simp add: comp_def)
  ultimately show "loss_forward_with op_log op_sub op_abs op_mean x_mag y_mag
      = Inr (op_mean (map (\<lambda>v. op_abs (op_sub (op_log (hd y_mag)) (op_log v))) x_mag))"
    by (simp only: loss_forward_with_def l1_loss_with_def sum.case prod.case)
next
  assume a: "length x_mag = 1 \<and> length y_mag \<noteq> 1"
  then have "x_mag \<noteq> []" by auto
  then have hd: "hd (map op_log x_mag) = op_log (hd x_mag)"
    by (rule hd_map)
  from a have "broadcast_tensors (map op_log y_mag) (map op_log x_mag)
      = Inr (map op_log y_mag, replicate (length (map op_log y_mag)) (op_log (hd x_mag)))"
    by (simp add: broadcast_tensors_def hd)
  moreover have "map2 (\<lambda>a b. op_abs (op_sub a b))
      (map op_log y_mag) (replicate (length (map op_log y_mag)) (op_log (hd x_mag)))
      = map (\<lambda>v. op_abs (op_sub (op_log v) (op_log (hd x_mag)))) y_mag"
    by (simp only: map2_replicate_right) (simp add: comp_def)
  ultimately show "loss_forward_with op_log op_sub op_abs op_mean x_mag y_mag
      = Inr (op_mean (map (\<lambda>v. op_abs (op_sub (op_log v) (op_log (hd x_mag)))) y_mag))"
    by (simp only: loss_forward_with_def l1_loss_with_def sum.case prod.case)
next
  assume "length x_mag \<noteq> length y_mag \<and> length x_mag \<noteq> 1 \<and> length y_mag \<noteq> 1"
  then show "loss_forward_with op_log op_sub op_abs op_mean x_mag y_mag = Inl RuntimeError"
    by (simp add: loss_forward_with_def l1_loss_with_def broadcast_tensors_def)
qed

theorem loss_is_log_l1_mean_witness:
  "loss_forward_with log_entry fsub fabs tensor_mean [1, 2] [3, 4]
     = Inr (log_l1_mean_with log_entry fsub fabs tensor_mean [1, 2] [3, 4])
   \<and> loss_forward_with log_entry fsub fabs tensor_mean [1, 2, 3] [4]
     = Inr (tensor_mean (map (\<lambda>v. fabs (fsub (log_entry (hd [4])) (log_entry v))) [1, 2, 3]))
   \<and> loss_forward_with log_entry fsub fabs tensor_mean [4] [1, 2, 3]
     = Inr (tensor_mean (map (\<lambda>v. fabs (fsub (log_entry v) (log_entry (hd [4])))) [1, 2, 3]))
   \<and> loss_forward_with log_entry fsub fabs tensor_mean [1, 2] [1, 2, 3] = Inl RuntimeError"
proof -
  have 1: "length [1, 2 :: real] = length [3, 4 :: real]" by simp
  have 2: "length [4 :: real] = 1 \<and> length [1, 2, 3 :: real] \<noteq> 1" by simp
  have 4: "length [1, 2 :: real] \<noteq> length [1, 2, 3 :: real] \<and> length [1, 2 :: real] \<noteq> 1
      \<and> length [1, 2, 3 :: real] \<noteq> 1" by simp
  note a = loss_is_log_l1_mean [of "[1, 2]" "[3, 4]" log_entry fsub fabs tensor_mean,
      THEN conjunct1, rule_format, OF 1]
  note b = loss_is_log_l1_mean [of "[1, 2, 3]" "[4]" log_entry fsub fabs tensor_mean,
      THEN conjunct2, THEN conjunct1, rule_format, OF 2]
  note c = loss_is_log_l1_mean [of "[4]" "[1, 2, 3]" log_entry fsub fabs tensor_mean,
      THEN conjunct2, THEN conjunct2, THEN conjunct1, rule_format, OF 2]
  note d = loss_is_log_l1_mean [of "[1, 2]" "[1, 2, 3]" log_entry fsub fabs tensor_mean,
      THEN conjunct2, THEN conjunct2, THEN conjunct2, rule_format, OF 4]
  from a b c d show ?thesis by (intro conjI)
qed

text \<open>
  Two tensors of strictly positive entries, of two and of three elements: the library
  cannot broadcast them, and the call raises instead of returning a loss.
\<close>

theorem mismatched_shapes_raise:
  "loss_forward [1, 2] [1, 2, 3] = Inl RuntimeError
   \<and> loss_forward_with log_entry fsub fabs tensor_mean [1, 2] [1, 2, 3] = Inl RuntimeError"
  by (simp add: loss_forward_instance loss_forward_with_def l1_loss_with_def
      broadcast_tensors_def)

lemma fabs_fsub_commute: "fabs (fsub a b) = fabs (fsub b a)"
  by (cases a; cases b) simp_all

lemma abs_diff_commute:
  "map2 (\<lambda>a b. fabs (fsub a b)) xs ys = map2 (\<lambda>a b. fabs (fsub a b)) ys xs"
proof (induction xs arbitrary: ys)
  case Nil
  show ?case by simp
next
  case (Cons x xs)
  then show ?case
    by (cases ys) (simp_all add: fabs_fsub_commute)
qed

lemma l1_loss_commute: "l1_loss a b = l1_loss b a"
proof -
  consider "length a = length b" | "length a \<noteq> length b" "length a = 1"
    | "length a \<noteq> length b" "length a \<noteq> 1" "length b = 1"
    | "length a \<noteq> length b" "length a \<noteq> 1" "length b \<noteq> 1"
    by blast
  then show ?thesis
  proof cases
    case 1
    then show ?thesis
      by (simp add: l1_loss_def broadcast_tensors_def abs_diff_commute)
  next
    case 2
    then have "length b \<noteq> 1" by simp
    with 2 show ?thesis
      using abs_diff_commute [of "replicate (length b) (hd a)" b]
      by (simp add: l1_loss_def broadcast_tensors_def)
  next
    case 3
    then show ?thesis
      using abs_diff_commute [of a "replicate (length a) (hd b)"]
      by (simp add: l1_loss_def broadcast_tensors_def)
  next
    case 4
    then show ?thesis
      by (simp add: l1_loss_def broadcast_tensors_def)
  qed
qed

text \<open>
  C10. For tensors of strictly positive entries the loss of \<open>x\<close> against \<open>y\<close> is the loss
  of \<open>y\<close> against \<open>x\<close>, and the loss of a tensor that is not empty against itself is 0.
\<close>

theorem loss_symmetric_and_zero:
  assumes "\<forall>v \<in> set x. 0 < v" and "\<forall>v \<in> set y. 0 < v"
  shows "loss_forward x y = loss_forward y x
         \<and> (x \<noteq> [] \<longrightarrow> loss_forward x x = Inr (Fin 0))"
proof
  show "loss_forward x y = loss_forward y x"
    unfolding loss_forward_def by (rule l1_loss_commute)
next
  show "x \<noteq> [] \<longrightarrow> loss_forward x x = Inr (Fin 0)"
  proof
    assume "x \<noteq> []"
    moreover from assms(1) have "loss_forward x x = Inr (log_l1_mean x x)"
      by (intro loss_forward_positive) simp_all
    ultimately show "loss_forward x x = Inr (Fin 0)"
      by (simp add: log_l1_mean_def)
  qed
qed

theorem loss_symmetric_and_zero_witness:
  "loss_forward [1, 2] [3, 4] = loss_forward [3, 4] [1, 2]
   \<and> loss_forward [1, 2] [1, 2] = Inr (Fin 0)"
proof -
  have 1: "\<forall>v \<in> set [1, 2 :: real]. 0 < v" by simp
  have 2: "\<forall>v \<in> set [3, 4 :: real]. 0 < v" by simp
  have 3: "[1, 2 :: real] \<noteq> []" by simp
  note inst = loss_symmetric_and_zero [OF 1 2]
  from inst [THEN conjunct1] inst [THEN conjunct2, rule_format, OF 3]
  show ?thesis by (rule conjI)
qed

text \<open>The loss of the empty tensor against itself is the mean over no element, a NaN.\<close>

theorem empty_loss_is_nan:
  "loss_forward [] [] = Inr NonFin \<and> loss_forward [] [] \<noteq> Inr (Fin 0)"
  by (simp add: loss_forward_def l1_loss_def broadcast_tensors_def torch_log_def
      tensor_mean_def tensor_sum_def)

end
